theory Spec2Isabelle
  imports
    Complex_Main
    "HOL-Library.AList"
    "HOL-Library.Char_ord"
    "HOL-Library.List_Lexorder"
    "HOL-Library.Log_Nat"
    "HOL-Library.Multiset"
    "HOL-Library.Sublist"
begin

section \<open>Dashboard for precomputed outcome statistics: data model\<close>

text \<open>
  The program is \<^verbatim>\<open>dashboard_app.py\<close>. A \<^verbatim>\<open>pathlib.Path\<close> is the list of its
  parts, so \<^verbatim>\<open>base / name\<close> appends a part and \<^verbatim>\<open>child.name\<close> is the last part.
  Paths compare part by part and strings character by character, which is the
  lexicographic order of \<open>List_Lexorder\<close> over \<open>Char_ord\<close>.
\<close>

type_synonym path = "string list"

datatype error = FileNotFoundError | KeyError | ValueError | TypeError | StopException

subsection \<open>League Catalog Resolver\<close>

text \<open>
  A directory is what \<^verbatim>\<open>iterdir\<close> yields: its entries, in the order the operating
  system lists them, each a name and the answer of \<^verbatim>\<open>is_dir()\<close>. A base path that
  is not a directory has no listing and \<^verbatim>\<open>iterdir\<close> raises.
\<close>

type_synonym entry = "string \<times> bool"

definition iterdir :: "path \<Rightarrow> entry list \<Rightarrow> (path \<times> bool) list" where
  "iterdir base_path es = map (\<lambda>(n, d). (base_path @ [n], d)) es"

definition name :: "path \<Rightarrow> string" where
  "name p = (if p = [] then [] else last p)"

text \<open>\<^verbatim>\<open>glob("*.csv")\<close>: the entries whose name ends in \<^verbatim>\<open>.csv\<close>.\<close>

definition glob_csv :: "path \<Rightarrow> entry list \<Rightarrow> path list" where
  "glob_csv base_path es =
     map (\<lambda>(n, d). base_path @ [n]) (filter (\<lambda>(n, d). suffix ''.csv'' n) es)"

text \<open>
  The result is a Python dict: insertion ordered, and assigning to a key that is
  already there keeps its position. That is \<open>AList.update\<close> on an association list.
\<close>

type_synonym leagues = "(string \<times> path) list"

definition get_available_leagues :: "path \<Rightarrow> entry list option \<Rightarrow> error + leagues" where
  "get_available_leagues base_path listing =
     (case listing of
        None \<Rightarrow> Inl FileNotFoundError
      | Some es \<Rightarrow>
          (let subfolders = map fst (filter snd (iterdir base_path es)) in
           if subfolders \<noteq> [] then
             Inr (fold (\<lambda>child leagues. AList.update (name child) child leagues)
                    (sort subfolders) [])
           else
             (let csv_files = glob_csv base_path es in
              if csv_files \<noteq> [] then Inr (AList.update ''default'' base_path [])
              else Inr [])))"

text \<open>The catalogue the specification describes, for a listing \<open>es\<close> of the base directory.\<close>

definition subdir_names :: "entry list \<Rightarrow> string list" where
  "subdir_names es = map fst (filter snd es)"

definition has_direct_csv :: "entry list \<Rightarrow> bool" where
  "has_direct_csv es = (\<exists>(n, d) \<in> set es. \<not> d \<and> suffix ''.csv'' n)"

definition catalog_spec :: "path \<Rightarrow> entry list \<Rightarrow> leagues" where
  "catalog_spec base_path es =
     (if subdir_names es \<noteq> [] then map (\<lambda>n. (n, base_path @ [n])) (sort (subdir_names es))
      else if has_direct_csv es then [(''default'', base_path)]
      else [])"

subsection \<open>Tables\<close>

text \<open>
  A pandas \<^verbatim>\<open>DataFrame\<close> is column oriented: the labelled columns in their order and
  the number of rows. A cell is a number, a missing value or text. A number is the
  rational that the \<^verbatim>\<open>float64\<close> or the integer in the cell denotes: comparison and
  maximum are exact on these values, and every \<^verbatim>\<open>float64\<close> operation that rounds is
  written with the rounding function \<open>fl\<close> below.
\<close>

datatype cell = Num rat | NaN | Str string

record table =
  nrows :: nat
  cols :: "(string \<times> cell list) list"

definition columns :: "table \<Rightarrow> string list" where
  "columns t = map fst (cols t)"

text \<open>
  Tables read by \<^verbatim>\<open>pd.read_csv\<close> have pairwise different labels (repeated headers are
  renamed), and so have the tables the program builds from them. Selecting and assigning
  columns by label is modelled for such tables; the properties below assume
  \<open>distinct (columns t)\<close> where a column is read or written by its label.
\<close>

text \<open>\<^verbatim>\<open>df.empty\<close>: some axis has length zero.\<close>

definition empty :: "table \<Rightarrow> bool" where
  "empty t \<longleftrightarrow> nrows t = 0 \<or> cols t = []"

text \<open>
  \<^verbatim>\<open>df[c] = value\<close> with a scalar: the value is broadcast to every row; an existing
  column keeps its position, a new one is appended.
\<close>

definition setitem_scalar :: "string \<Rightarrow> cell \<Rightarrow> table \<Rightarrow> table" where
  "setitem_scalar c v t = t\<lparr>cols := AList.update c (replicate (nrows t) v) (cols t)\<rparr>"

text \<open>\<^verbatim>\<open>df[c] = series\<close> with a column of the same index.\<close>

definition setitem :: "string \<Rightarrow> cell list \<Rightarrow> table \<Rightarrow> table" where
  "setitem c vs t = t\<lparr>cols := AList.update c vs (cols t)\<rparr>"

text \<open>
  \<^verbatim>\<open>pd.concat(dfs, ignore_index=True)\<close>: the rows are stacked; the columns are the union
  of the labels in order of first appearance; a table that lacks a column contributes
  missing values.
\<close>

definition union_columns :: "table list \<Rightarrow> string list" where
  "union_columns ts = rev (remdups (rev (concat (map columns ts))))"

definition column_or_nan :: "table \<Rightarrow> string \<Rightarrow> cell list" where
  "column_or_nan t c = (case map_of (cols t) c of Some vs \<Rightarrow> vs | None \<Rightarrow> replicate (nrows t) NaN)"

definition pd_concat :: "table list \<Rightarrow> table" where
  "pd_concat ts =
     \<lparr>nrows = sum_list (map nrows ts),
      cols = map (\<lambda>c. (c, concat (map (\<lambda>t. column_or_nan t c) ts))) (union_columns ts)\<rparr>"

subsection \<open>Program state\<close>

text \<open>
  Tables are objects: the heap is the list of the tables allocated so far and an
  address is an index into it. The state also holds the entries of the
  \<^verbatim>\<open>st.cache_data\<close> cache of \<^verbatim>\<open>load_csv\<close>, the log of the calls of \<^verbatim>\<open>pd.read_csv\<close>
  and the messages shown to the user.
\<close>

datatype ui_event =
    Warning string
  | Error string
  | Info string
  | Dataframe table "string list list"
  | Metric string string
  | Write string

record state =
  heap :: "table list"
  cache :: "(path \<times> table) list"
  reads :: "path list"
  ui :: "ui_event list"

definition alloc :: "table \<Rightarrow> state \<Rightarrow> (error + nat) \<times> state" where
  "alloc t st = (Inr (length (heap st)), st\<lparr>heap := heap st @ [t]\<rparr>)"

subsection \<open>Tabular Loader\<close>

text \<open>
  The disk maps the paths that exist to the table their CSV text parses to.
  \<^verbatim>\<open>pd.read_csv\<close> itself raises \<^verbatim>\<open>FileNotFoundError\<close> on a path that does not exist.
\<close>

type_synonym disk = "path \<Rightarrow> table option"

definition exists :: "disk \<Rightarrow> path \<Rightarrow> bool" where
  "exists d path \<longleftrightarrow> d path \<noteq> None"

definition read_csv :: "disk \<Rightarrow> path \<Rightarrow> state \<Rightarrow> (error + nat) \<times> state" where
  "read_csv d path st =
     (let st1 = st\<lparr>reads := reads st @ [path]\<rparr> in
      case d path of
        None \<Rightarrow> (Inl FileNotFoundError, st1)
      | Some t \<Rightarrow> alloc t st1)"

text \<open>The body of \<^verbatim>\<open>load_csv\<close>.\<close>

definition load_csv_body :: "disk \<Rightarrow> path \<Rightarrow> state \<Rightarrow> (error + nat) \<times> state" where
  "load_csv_body d path st =
     (if \<not> exists d path then (Inl FileNotFoundError, st)
      else read_csv d path st)"

text \<open>
  The decorator \<^verbatim>\<open>@st.cache_data\<close>: results are memoized by the argument. The cache keeps
  a serialized snapshot of the value, and a hit deserializes it into a new object; a
  call that raises stores nothing.
\<close>

definition cache_data ::
  "(path \<Rightarrow> state \<Rightarrow> (error + nat) \<times> state) \<Rightarrow> path \<Rightarrow> state \<Rightarrow> (error + nat) \<times> state" where
  "cache_data f path st =
     (case map_of (cache st) path of
        Some t \<Rightarrow> alloc t st
      | None \<Rightarrow>
          (case f path st of
             (Inl e, st1) \<Rightarrow> (Inl e, st1)
           | (Inr a, st1) \<Rightarrow> (Inr a, st1\<lparr>cache := cache st1 @ [(path, heap st1 ! a)]\<rparr>)))"

definition load_csv :: "disk \<Rightarrow> path \<Rightarrow> state \<Rightarrow> (error + nat) \<times> state" where
  "load_csv d = cache_data (load_csv_body d)"

text \<open>Every memoized entry is what the disk holds: files do not change during a session.\<close>

definition cache_consistent :: "disk \<Rightarrow> state \<Rightarrow> bool" where
  "cache_consistent d st \<longleftrightarrow> list_all (\<lambda>(p, t). d p = Some t) (cache st)"

subsection \<open>Selection Merger\<close>

datatype analysis_type = Stagione | Giornata

definition analysis_file :: "analysis_type \<Rightarrow> string" where
  "analysis_file a = (if a = Stagione then ''analisi_stagioni.csv'' else ''analisi_giornate.csv'')"

definition warning_msg :: "string \<Rightarrow> string \<Rightarrow> string" where
  "warning_msg file league =
     ''File '' @ [CHR 0x27] @ file @ [CHR 0x27] @ '' non trovato per la lega '' @ league @ ''.''"

text \<open>\<^verbatim>\<open>df["league"] = league\<close> on the object at address \<open>a\<close>.\<close>

definition tag_league :: "nat \<Rightarrow> string \<Rightarrow> state \<Rightarrow> state" where
  "tag_league a league st =
     st\<lparr>heap := (heap st)[a := setitem_scalar ''league'' (Str league) (heap st ! a)]\<rparr>"

text \<open>
  The loop over \<^verbatim>\<open>selected_leagues\<close>. \<^verbatim>\<open>available_leagues[league]\<close> raises
  \<^verbatim>\<open>KeyError\<close> for an unknown league; only \<^verbatim>\<open>FileNotFoundError\<close> is caught.
\<close>

fun merge_loop ::
  "disk \<Rightarrow> leagues \<Rightarrow> string \<Rightarrow> string list \<Rightarrow> nat list \<Rightarrow> state \<Rightarrow> (error + nat list) \<times> state" where
  "merge_loop d available_leagues file [] dfs st = (Inr dfs, st)"
| "merge_loop d available_leagues file (league # rest) dfs st =
     (case map_of available_leagues league of
        None \<Rightarrow> (Inl KeyError, st)
      | Some league_path \<Rightarrow>
          (let csv_path = league_path @ [file] in
           case load_csv d csv_path st of
             (Inl e, st1) \<Rightarrow>
               if e = FileNotFoundError then
                 merge_loop d available_leagues file rest dfs
                   (st1\<lparr>ui := ui st1 @ [Warning (warning_msg file league)]\<rparr>)
               else (Inl e, st1)
           | (Inr df, st1) \<Rightarrow>
               merge_loop d available_leagues file rest (dfs @ [df]) (tag_league df league st1)))"

definition no_data_msg :: string where
  "no_data_msg = ''Nessun dato disponibile con le selezioni effettuate.''"

text \<open>
  The merge: the loop, then \<^verbatim>\<open>st.error\<close> and \<^verbatim>\<open>st.stop()\<close> when nothing was collected,
  else the concatenation, a new object.
\<close>

definition merge ::
  "disk \<Rightarrow> leagues \<Rightarrow> analysis_type \<Rightarrow> string list \<Rightarrow> state \<Rightarrow> (error + nat) \<times> state" where
  "merge d available_leagues a selected_leagues st =
     (case merge_loop d available_leagues (analysis_file a) selected_leagues [] st of
        (Inl e, st1) \<Rightarrow> (Inl e, st1)
      | (Inr dfs, st1) \<Rightarrow>
          if dfs = [] then (Inl StopException, st1\<lparr>ui := ui st1 @ [Error no_data_msg]\<rparr>)
          else alloc (pd_concat (map (\<lambda>a. heap st1 ! a) dfs)) st1)"

text \<open>
  What the specification says of the merge: the path of a league's file, the leagues
  whose file is missing, those whose file is there, and a loaded table with every row
  tagged.
\<close>

definition csv_path_of :: "leagues \<Rightarrow> string \<Rightarrow> string \<Rightarrow> path" where
  "csv_path_of available_leagues file league = the (map_of available_leagues league) @ [file]"

definition missing_leagues :: "disk \<Rightarrow> leagues \<Rightarrow> string \<Rightarrow> string list \<Rightarrow> string list" where
  "missing_leagues d available_leagues file selected =
     filter (\<lambda>l. d (csv_path_of available_leagues file l) = None) selected"

definition found_leagues :: "disk \<Rightarrow> leagues \<Rightarrow> string \<Rightarrow> string list \<Rightarrow> string list" where
  "found_leagues d available_leagues file selected =
     filter (\<lambda>l. d (csv_path_of available_leagues file l) \<noteq> None) selected"

definition tagged :: "disk \<Rightarrow> leagues \<Rightarrow> string \<Rightarrow> string \<Rightarrow> table" where
  "tagged d available_leagues file league =
     setitem_scalar ''league'' (Str league) (the (d (csv_path_of available_leagues file league)))"

definition column_values :: "table \<Rightarrow> string \<Rightarrow> cell list option" where
  "column_values t c = map_of (cols t) c"

subsection \<open>Column Orderer\<close>

text \<open>
  \<^verbatim>\<open>data[names]\<close>: for each requested label, in the order requested, the columns that
  carry it; \<^verbatim>\<open>KeyError\<close> when a label is not in the table.
\<close>

definition getitem_columns :: "string list \<Rightarrow> table \<Rightarrow> error + table" where
  "getitem_columns names t =
     (if list_ex (\<lambda>n. n \<notin> set (columns t)) names then Inl KeyError
      else Inr (t\<lparr>cols := concat (map (\<lambda>n. filter (\<lambda>(c, vs). c = n) (cols t)) names)\<rparr>))"

definition id_cols :: "analysis_type \<Rightarrow> string list" where
  "id_cols a = (if a = Stagione then [''league''] @ [''season'']
                else [''league''] @ [''season'', ''round''])"

definition order_cols :: "analysis_type \<Rightarrow> string list \<Rightarrow> string list" where
  "order_cols a selected_outcomes =
     id_cols a @ map (\<lambda>outcome. outcome @ ''_count'') selected_outcomes
       @ map (\<lambda>outcome. outcome @ ''_percentage'') selected_outcomes"

definition reorder_columns :: "analysis_type \<Rightarrow> string list \<Rightarrow> table \<Rightarrow> error + table" where
  "reorder_columns a selected_outcomes data =
     (let available_cols = filter (\<lambda>col. col \<in> set (columns data)) (order_cols a selected_outcomes);
          extra_cols = filter (\<lambda>col. col \<notin> set available_cols) (columns data)
      in getitem_columns (available_cols @ extra_cols) data)"

text \<open>The preferred order in the words of the specification.\<close>

definition preferred :: "analysis_type \<Rightarrow> string list \<Rightarrow> string list" where
  "preferred a outcomes =
     [''league'', ''season''] @ (if a = Giornata then [''round''] else [])
       @ map (\<lambda>outcome. outcome @ ''_count'') outcomes
       @ map (\<lambda>outcome. outcome @ ''_percentage'') outcomes"

definition table_of_labels :: "string list \<Rightarrow> table" where
  "table_of_labels ls = \<lparr>nrows = 0, cols = map (\<lambda>l. (l, [])) ls\<rparr>"

subsection \<open>Columns of numbers\<close>

text \<open>
  Text cells are what \<^verbatim>\<open>pd.read_csv\<close> could not read as numbers; the CSV schema has
  none in the percentage and \<^verbatim>\<open>total_matches\<close> columns. The numeric operations of
  pandas fail on a column that holds text, and the model returns that failure.
\<close>

fun is_str :: "cell \<Rightarrow> bool" where
  "is_str (Str s) = True"
| "is_str c = False"

text \<open>The numbers of a column, missing values skipped (\<^verbatim>\<open>skipna\<close>).\<close>

fun numbers :: "cell list \<Rightarrow> rat list" where
  "numbers [] = []"
| "numbers (Num x # vs) = x # numbers vs"
| "numbers (c # vs) = numbers vs"

text \<open>\<^verbatim>\<open>df[col]\<close> for one label.\<close>

definition getitem :: "table \<Rightarrow> string \<Rightarrow> error + cell list" where
  "getitem t col = (case map_of (cols t) col of None \<Rightarrow> Inl KeyError | Some vs \<Rightarrow> Inr vs)"

text \<open>Rounding to the nearest integer, halves to the even one (\<^verbatim>\<open>rint\<close>).\<close>

definition round_half_even :: "rat \<Rightarrow> int" where
  "round_half_even y =
     (let f = \<lfloor>y\<rfloor>; r = y - of_int f in
      if r < 1 / 2 then f
      else if 1 / 2 < r then f + 1
      else if even f then f else f + 1)"

text \<open>
  A \<^verbatim>\<open>float64\<close> has a significand of 53 bits. Every arithmetic operation returns the
  \<^verbatim>\<open>float64\<close> nearest to the exact result, ties to the even significand: with
  \<open>2 powi e \<le> \<bar>x\<bar> < 2 powi (e + 1)\<close> the result is the multiple of \<open>2 powi (e - 52)\<close>
  nearest to \<open>x\<close>. The exponent is found from the bit lengths of numerator and
  denominator. The limits of the exponent (overflow to infinity, gradual underflow) are
  not modelled; the properties about rounded values are stated for numbers between
  \<open>2 powi (- 500)\<close> and \<open>2 powi 500\<close>, where no operation of the program reaches them.
\<close>

definition expo :: "rat \<Rightarrow> int" where
  "expo x =
     (let (p, q) = quotient_of \<bar>x\<bar>;
          g = int (floorlog 2 (nat p)) - int (floorlog 2 (nat q))
      in if 2 powi g \<le> \<bar>x\<bar> then g else g - 1)"

definition fl :: "rat \<Rightarrow> rat" where
  "fl x = (if x = 0 then 0
           else (let u = 2 powi (expo x - 52) in of_int (round_half_even (x / u)) * u))"

text \<open>
  \<^verbatim>\<open>astype(float)\<close>: a number becomes the nearest \<^verbatim>\<open>float64\<close> (a \<^verbatim>\<open>float64\<close> is
  unchanged, an integer beyond 53 bits is rounded), a missing value stays missing, and
  text that is not a number raises.
\<close>

fun float_cell :: "cell \<Rightarrow> cell" where
  "float_cell (Num x) = Num (fl x)"
| "float_cell c = c"

definition astype_float :: "cell list \<Rightarrow> error + cell list" where
  "astype_float vs = (if list_ex is_str vs then Inl ValueError else Inr (map float_cell vs))"

text \<open>
  \<^verbatim>\<open>round(2)\<close>: numpy multiplies by 100, rounds to the nearest integer, halves to the
  even one, and divides by 100, each step a \<^verbatim>\<open>float64\<close> operation; a missing value
  stays missing.
\<close>

definition round2 :: "rat \<Rightarrow> rat" where
  "round2 x = fl (of_int (round_half_even (fl (x * 100))) / 100)"

fun round2_cell :: "cell \<Rightarrow> cell" where
  "round2_cell (Num x) = Num (round2 x)"
| "round2_cell c = c"

definition series_round2 :: "cell list \<Rightarrow> cell list" where
  "series_round2 vs = map round2_cell vs"

text \<open>
  \<^verbatim>\<open>s.max()\<close>, \<^verbatim>\<open>s.mean()\<close> and \<^verbatim>\<open>s.sum()\<close> skip missing values. The mean is the
  \<^verbatim>\<open>float64\<close> sum of the numbers divided by their count. The order in which the numbers
  are added is the library's (numpy adds in pairs, bottleneck in sequence) and is not
  fixed by the program, so the sum is the parameter \<open>float_sum\<close>.
\<close>

definition series_max :: "cell list \<Rightarrow> error + cell" where
  "series_max vs =
     (if list_ex is_str vs then Inl TypeError
      else case numbers vs of [] \<Rightarrow> Inr NaN | x # xs \<Rightarrow> Inr (Num (fold max xs x)))"




definition series_sum :: "cell list \<Rightarrow> error + rat" where
  "series_sum vs = (if list_ex is_str vs then Inl TypeError else Inr (sum_list (numbers vs)))"

subsection \<open>Presentation Formatter\<close>

definition copy :: "nat \<Rightarrow> state \<Rightarrow> nat \<times> state" where
  "copy df st = (length (heap st), st\<lparr>heap := heap st @ [heap st ! df]\<rparr>)"

text \<open>The loop \<^verbatim>\<open>for col in pct_cols\<close>, writing into the object \<open>df_formatted\<close>.\<close>

fun format_loop :: "string list \<Rightarrow> nat \<Rightarrow> state \<Rightarrow> (error + unit) \<times> state" where
  "format_loop [] df_formatted st = (Inr (), st)"
| "format_loop (col # rest) df_formatted st =
     (case getitem (heap st ! df_formatted) col of
        Inl e \<Rightarrow> (Inl e, st)
      | Inr s \<Rightarrow>
          (case astype_float s of
             Inl e \<Rightarrow> (Inl e, st)
           | Inr fs \<Rightarrow>
               format_loop rest df_formatted
                 (st\<lparr>heap := (heap st)[df_formatted :=
                         setitem col (series_round2 fs) (heap st ! df_formatted)]\<rparr>)))"

definition format_percentage_columns :: "nat \<Rightarrow> state \<Rightarrow> (error + nat) \<times> state" where
  "format_percentage_columns df st =
     (let pct_cols = filter (\<lambda>col. suffix ''_percentage'' col) (columns (heap st ! df));
          (df_formatted, st1) = copy df st
      in case format_loop pct_cols df_formatted st1 of
           (Inl e, st2) \<Rightarrow> (Inl e, st2)
         | (Inr u, st2) \<Rightarrow> (Inr df_formatted, st2))"

text \<open>The formatted table in the words of the specification.\<close>

definition formatted :: "table \<Rightarrow> table" where
  "formatted t =
     t\<lparr>cols := map (\<lambda>(c, vs). if suffix ''_percentage'' c
                              then (c, map (\<lambda>v. round2_cell (float_cell v)) vs) else (c, vs))
                 (cols t)\<rparr>"

definition numeric_percentages :: "table \<Rightarrow> bool" where
  "numeric_percentages t \<longleftrightarrow>
     list_all (\<lambda>(c, vs). suffix ''_percentage'' c \<longrightarrow> \<not> list_ex is_str vs) (cols t)"





subsection \<open>Highlighting\<close>

definition highlight_css :: string where
  "highlight_css = ''background-color: #c8e6c9; font-weight: bold''"

definition no_selection_msg :: string where
  "no_selection_msg = ''Nessun dato disponibile per la selezione corrente.''"

text \<open>\<^verbatim>\<open>s == m\<close> for one cell: a missing value equals nothing.\<close>

fun eq_cell :: "cell \<Rightarrow> cell \<Rightarrow> bool" where
  "eq_cell (Num x) (Num y) = (x = y)"
| "eq_cell (Str a) (Str b) = (a = b)"
| "eq_cell u v = False"

definition highlight_max :: "string list \<Rightarrow> string \<times> cell list \<Rightarrow> error + string list" where
  "highlight_max highlight_cols s =
     (if fst s \<in> set highlight_cols then
        (case series_max (snd s) of
           Inl e \<Rightarrow> Inl e
         | Inr m \<Rightarrow> Inr (map (\<lambda>val. if eq_cell val m then highlight_css else []) (snd s)))
      else Inr (map (\<lambda>val. []) (snd s)))"

text \<open>\<^verbatim>\<open>df.style.apply(f, axis=0)\<close>: the styles of every column, in column order.\<close>

fun style_apply :: "(string \<times> cell list \<Rightarrow> error + string list) \<Rightarrow> (string \<times> cell list) list
    \<Rightarrow> error + string list list" where
  "style_apply f [] = Inr []"
| "style_apply f (s # ss) =
     (case f s of
        Inl e \<Rightarrow> Inl e
      | Inr css \<Rightarrow> (case style_apply f ss of Inl e \<Rightarrow> Inl e | Inr rest \<Rightarrow> Inr (css # rest)))"

definition render_table :: "nat \<Rightarrow> string list \<Rightarrow> state \<Rightarrow> (error + unit) \<times> state" where
  "render_table df selected_outcomes st =
     (if empty (heap st ! df) then (Inr (), st\<lparr>ui := ui st @ [Info no_selection_msg]\<rparr>)
      else
        case format_percentage_columns df st of
          (Inl e, st1) \<Rightarrow> (Inl e, st1)
        | (Inr df_display, st1) \<Rightarrow>
            (let highlight_cols = map (\<lambda>outcome. outcome @ ''_percentage'') selected_outcomes in
             case style_apply (highlight_max highlight_cols) (cols (heap st1 ! df_display)) of
               Inl e \<Rightarrow> (Inl e, st1)
             | Inr styled \<Rightarrow>
                 (Inr (), st1\<lparr>ui := ui st1 @ [Dataframe (heap st1 ! df_display) styled]\<rparr>)))"

text \<open>A cell holds the maximum of its column: it is a number and no number of the column is larger.\<close>

definition is_column_max :: "cell list \<Rightarrow> nat \<Rightarrow> bool" where
  "is_column_max vs i \<longleftrightarrow> (\<exists>x. vs ! i = Num x \<and> (\<forall>y. Num y \<in> set vs \<longrightarrow> y \<le> x))"

text \<open>The styles the highlighting gives a column that holds no text.\<close>

definition max_cell :: "cell list \<Rightarrow> cell" where
  "max_cell vs = (case numbers vs of [] \<Rightarrow> NaN | x # xs \<Rightarrow> Num (fold max xs x))"

definition column_style :: "string list \<Rightarrow> string \<times> cell list \<Rightarrow> string list" where
  "column_style highlight_cols s =
     (if fst s \<in> set highlight_cols
      then map (\<lambda>val. if eq_cell val (max_cell (snd s)) then highlight_css else []) (snd s)
      else map (\<lambda>val. []) (snd s))"

subsection \<open>Summary Aggregator\<close>









subsection \<open>Total of matches\<close>

text \<open>\<^verbatim>\<open>int(x)\<close> truncates towards zero.\<close>

definition trunc :: "rat \<Rightarrow> int" where
  "trunc x = (if 0 \<le> x then \<lfloor>x\<rfloor> else \<lceil>x\<rceil>)"

definition digit :: "nat \<Rightarrow> char" where
  "digit n = ''0123456789'' ! n"

fun str_nat :: "nat \<Rightarrow> string" where
  "str_nat n = (if n < 10 then [digit n] else str_nat (n div 10) @ [digit (n mod 10)])"

declare str_nat.simps [simp del]

text \<open>Groups of three digits, on the digits from the least significant one.\<close>

fun group3 :: "string \<Rightarrow> string" where
  "group3 (a # b # c # d # rest) = a # b # c # CHR '','' # group3 (d # rest)"
| "group3 ds = ds"

text \<open>The format \<^verbatim>\<open>f"{n:,}"\<close> and \<^verbatim>\<open>.replace(",", ".")\<close>.\<close>

definition format_comma :: "int \<Rightarrow> string" where
  "format_comma n = (if n < 0 then ''-'' else []) @ rev (group3 (rev (str_nat (nat \<bar>n\<bar>))))"

definition replace_comma :: "string \<Rightarrow> string" where
  "replace_comma s = map (\<lambda>c. if c = CHR '','' then CHR ''.'' else c) s"

definition str_int :: "int \<Rightarrow> string" where
  "str_int n = (if n < 0 then ''-'' else []) @ str_nat (nat \<bar>n\<bar>)"

definition total_matches_metric :: "table \<Rightarrow> error + ui_event" where
  "total_matches_metric data =
     (if ''total_matches'' \<in> set (columns data) then
        (case getitem data ''total_matches'' of
           Inl e \<Rightarrow> Inl e
         | Inr s \<Rightarrow>
             (case series_sum s of
                Inl e \<Rightarrow> Inl e
              | Inr total_matches \<Rightarrow>
                  Inr (Metric ''Partite analizzate''
                         (replace_comma (format_comma (trunc total_matches))))))
      else Inr (Metric ''Partite analizzate'' ''Dato non disponibile''))"

text \<open>A column that, when the table has it, holds no text.\<close>

definition numeric_column :: "table \<Rightarrow> string \<Rightarrow> bool" where
  "numeric_column t c \<longleftrightarrow>
     (case column_values t c of None \<Rightarrow> True | Some vs \<Rightarrow> \<not> list_ex is_str vs)"

subsection \<open>A small installation\<close>

text \<open>
  One league directory \<^verbatim>\<open>data/A\<close> with a season file of one row; league \<^verbatim>\<open>B\<close> has a
  directory and no file.
\<close>

definition table_A :: table where
  "table_A = \<lparr>nrows = 1, cols = [(''season'', [Num 2023]), (''over_25_percentage'', [Num 50])]\<rparr>"

definition path_A :: path where
  "path_A = [''data'', ''A'', ''analisi_stagioni.csv'']"

definition disk_A :: disk where
  "disk_A = map_of [(path_A, table_A)]"

definition leagues_AB :: leagues where
  "leagues_AB = [(''A'', [''data'', ''A'']), (''B'', [''data'', ''B''])]"

definition init :: state where
  "init = \<lparr>heap = [], cache = [], reads = [], ui = []\<rparr>"


text \<open>A table with a tie at the maximum of a percentage column.\<close>

definition table_hl :: table where
  "table_hl = \<lparr>nrows = 3, cols = [(''gg_percentage'', [Num 70, Num 20, Num 70]),
                                  (''over_25_percentage'', [Num 50, Num 50, Num 10])]\<rparr>"


text \<open>A combined table with a percentage column and the column of totals.\<close>

definition table_sum :: table where
  "table_sum = \<lparr>nrows = 2, cols = [(''season'', [Num 2023, Num 2024]),
                                   (''over_25_percentage'', [Num 51, Num 60]),
                                   (''total_matches'', [Num 1234000, Num 567])]\<rparr>"

text \<open>
  The reading of "the merger works on a copy": after the loop has run for one league,
  the object the loader returned for it is what the loader returned.
\<close>

definition tags_a_copy :: "disk \<Rightarrow> leagues \<Rightarrow> string \<Rightarrow> string \<Rightarrow> state \<Rightarrow> bool" where
  "tags_a_copy d available_leagues file league st \<longleftrightarrow>
     (case load_csv d (csv_path_of available_leagues file league) st of
        (Inl e, st1) \<Rightarrow> True
      | (Inr a, st1) \<Rightarrow>
          heap (snd (merge_loop d available_leagues file [league] [] st)) ! a = heap st1 ! a)"

section \<open>Properties\<close>

subsection \<open>League Catalog Resolver\<close>

lemma fold_update_fresh:
  "distinct (map f xs) \<Longrightarrow> set (map f xs) \<inter> fst ` set acc = {} \<Longrightarrow>
   fold (\<lambda>x l. AList.update (f x) (g x) l) xs acc = acc @ map (\<lambda>x. (f x, g x)) xs"
proof (induction xs arbitrary: acc)
  case Nil
  then show ?case by simp
next
  case (Cons x xs)
  have fresh: "f x \<notin> fst ` set acc"
    using Cons.prems(2) by auto
  have step: "AList.update (f x) (g x) acc = acc @ [(f x, g x)]"
    using fresh by (induction acc) auto
  have "set (map f xs) \<inter> fst ` set (acc @ [(f x, g x)]) = {}"
    using Cons.prems by auto
  with Cons.IH [of "acc @ [(f x, g x)]"] Cons.prems(1) step show ?case
    by simp
qed

lemma sort_children:
  "sort (map (\<lambda>n. base_path @ [n]) ns) = map (\<lambda>n. base_path @ [n :: string]) (sort ns)"
proof (rule properties_for_sort)
  show "mset (map (\<lambda>n. base_path @ [n]) (sort ns)) = mset (map (\<lambda>n. base_path @ [n]) ns)"
    by simp
  have mono: "\<And>a b :: string. a \<le> b \<Longrightarrow> base_path @ [a] \<le> base_path @ [b]"
    by (induction base_path) (auto simp: list_le_def)
  have "sorted (map (\<lambda>n. base_path @ [n]) xs)" if "sorted xs" for xs :: "string list"
    using that by (induction xs) (auto intro: mono)
  then show "sorted (map (\<lambda>n. base_path @ [n]) (sort ns))"
    using sorted_sort [of ns] by blast
qed

text \<open>
  C1. For a base directory (its entries have pairwise different names), the resolver
  returns one league per immediate subdirectory, keyed by the directory's name, in
  sorted order and mapped to the subdirectory, whenever a subdirectory exists, whatever
  CSV files lie beside them; otherwise the single league \<^verbatim>\<open>default\<close> mapped to the base
  path when a CSV file lies directly in it; otherwise the empty mapping.
\<close>

theorem get_available_leagues_catalog:
  assumes "distinct (map fst es)"
  shows "get_available_leagues base_path (Some es) = Inr (catalog_spec base_path es)"
proof -
  have subs: "map fst (filter snd (iterdir base_path es))
              = map (\<lambda>n. base_path @ [n]) (subdir_names es)"
    by (induction es) (auto simp: iterdir_def subdir_names_def)
  have csv: "glob_csv base_path es \<noteq> [] \<longleftrightarrow> (\<exists>(n, d) \<in> set es. suffix ''.csv'' n)"
    by (induction es) (auto simp: glob_csv_def)
  have nodirs: "has_direct_csv es \<longleftrightarrow> glob_csv base_path es \<noteq> []" if "subdir_names es = []"
  proof -
    have "\<not> d" if "(n, d) \<in> set es" for n d
      using that \<open>subdir_names es = []\<close> by (auto simp: subdir_names_def filter_empty_conv)
    then show ?thesis
      unfolding csv has_direct_csv_def by blast
  qed
  have dist: "distinct (sort (subdir_names es))"
    using assms by (simp add: subdir_names_def distinct_map_filter)
  have "fold (\<lambda>child leagues. AList.update (name child) child leagues)
          (map (\<lambda>n. base_path @ [n]) (sort (subdir_names es))) []
        = map (\<lambda>n. (n, base_path @ [n])) (sort (subdir_names es))"
    using fold_update_fresh [of "\<lambda>n. n" "sort (subdir_names es)" "[]" "\<lambda>n. base_path @ [n]"] dist
    by (simp add: fold_map comp_def name_def)
  then show ?thesis
    using nodirs
    by (simp add: get_available_leagues_def Let_def subs sort_children catalog_spec_def)
qed

theorem get_available_leagues_catalog_witness:
  "distinct (map fst [(''SerieB'', True), (''x.csv'', False), (''SerieA'', True)])
   \<and> get_available_leagues [''data''] (Some [(''SerieB'', True), (''x.csv'', False), (''SerieA'', True)])
       = Inr [(''SerieA'', [''data'', ''SerieA'']), (''SerieB'', [''data'', ''SerieB''])]
   \<and> get_available_leagues [''data''] (Some [(''a.csv'', False), (''notes.txt'', False)])
       = Inr [(''default'', [''data''])]
   \<and> get_available_leagues [''data''] (Some [(''notes.txt'', False)]) = Inr []"
proof -
  have s: "sort [''SerieB'', ''SerieA''] = [''SerieA'', ''SerieB'']"
    by code_simp
  show ?thesis
    using get_available_leagues_catalog [of "[(''SerieB'', True), (''x.csv'', False), (''SerieA'', True)]" "[''data'']"]
          get_available_leagues_catalog [of "[(''a.csv'', False), (''notes.txt'', False)]" "[''data'']"]
          get_available_leagues_catalog [of "[(''notes.txt'', False)]" "[''data'']"]
    by (simp add: catalog_spec_def subdir_names_def has_direct_csv_def suffix_to_prefix s)
qed

subsection \<open>Tabular Loader\<close>

lemma cache_hit_on_disk:
  "cache_consistent d st \<Longrightarrow> map_of (cache st) p = Some t \<Longrightarrow> d p = Some t"
  by (auto simp: cache_consistent_def list_all_iff dest!: map_of_SomeD)

lemma load_csv_missing:
  assumes "cache_consistent d st" and "d path = None"
  shows "load_csv d path st = (Inl FileNotFoundError, st)"
proof -
  have "map_of (cache st) path = None"
    using cache_hit_on_disk [OF assms(1), of path] assms(2) by (cases "map_of (cache st) path") auto
  then show ?thesis
    using assms(2) by (simp add: load_csv_def cache_data_def load_csv_body_def exists_def)
qed

lemma load_csv_found:
  assumes "cache_consistent d st" and "d path = Some t"
  shows "\<exists>st1. load_csv d path st = (Inr (length (heap st)), st1)
           \<and> heap st1 = heap st @ [t] \<and> ui st1 = ui st \<and> cache_consistent d st1"
proof (cases "map_of (cache st) path")
  case None
  then show ?thesis
    using assms
    by (simp add: load_csv_def cache_data_def load_csv_body_def exists_def read_csv_def
          alloc_def Let_def cache_consistent_def)
next
  case (Some u)
  then have "u = t"
    using cache_hit_on_disk [OF assms(1) Some] assms(2) by simp
  with Some show ?thesis
    using assms(1)
    by (simp add: load_csv_def cache_data_def alloc_def cache_consistent_def)
qed

lemma load_csv_returns_fresh:
  assumes "load_csv d path st = (Inr a, st1)"
  shows "a = length (heap st) \<and> length (heap st1) = Suc (length (heap st))
         \<and> take (length (heap st)) (heap st1) = heap st \<and> ui st1 = ui st"
  using assms
  by (auto simp: load_csv_def cache_data_def load_csv_body_def exists_def read_csv_def
        alloc_def Let_def split: option.splits if_splits)

text \<open>
  C7. A path that does not exist makes the loader fail with \<^verbatim>\<open>FileNotFoundError\<close>, in
  every state whose memoized entries are files of the disk. The state is returned as it
  was: the test comes before the parser is called (the log of reads is unchanged) and no
  table, whole or partial, is allocated. The undecorated body does so in every state.
\<close>

theorem load_csv_not_found:
  assumes "cache_consistent d st" and "\<not> exists d path"
  shows "load_csv d path st = (Inl FileNotFoundError, st)
         \<and> load_csv_body d path st = (Inl FileNotFoundError, st)
         \<and> reads (snd (load_csv d path st)) = reads st
         \<and> heap (snd (load_csv d path st)) = heap st"
proof -
  from assms(2) have none: "d path = None"
    by (simp add: exists_def)
  have "load_csv d path st = (Inl FileNotFoundError, st)"
    using assms(1) none by (rule load_csv_missing)
  moreover have "load_csv_body d path st = (Inl FileNotFoundError, st)"
    using assms(2) by (simp add: load_csv_body_def)
  ultimately show ?thesis by simp
qed

theorem load_csv_not_found_witness:
  "cache_consistent disk_A init \<and> \<not> exists disk_A [''data'', ''B'', ''analisi_stagioni.csv'']
   \<and> load_csv disk_A [''data'', ''B'', ''analisi_stagioni.csv''] init = (Inl FileNotFoundError, init)"
  using load_csv_not_found [of disk_A init "[''data'', ''B'', ''analisi_stagioni.csv'']"]
  by (simp add: cache_consistent_def init_def exists_def disk_A_def path_A_def)

subsection \<open>Selection Merger\<close>

lemma tag_league_fresh:
  assumes "heap st1 = h @ [t]"
  shows "heap (tag_league (length h) l st1) = h @ [setitem_scalar ''league'' (Str l) t]"
    and "cache (tag_league (length h) l st1) = cache st1"
    and "ui (tag_league (length h) l st1) = ui st1"
  using assms by (simp_all add: tag_league_def)

lemma upt_shift: "n # [Suc n ..< Suc n + k] = [n ..< n + Suc k]"
proof -
  have "n < n + Suc k" by simp
  then have "[n ..< n + Suc k] = n # [Suc n ..< n + Suc k]" by (rule upt_conv_Cons)
  then show ?thesis by simp
qed

lemma merge_loop_run:
  assumes "cache_consistent d st"
    and "set selected \<subseteq> fst ` set available_leagues"
  shows "\<exists>st'. merge_loop d available_leagues file selected dfs st
            = (Inr (dfs @ [length (heap st) ..<
                            length (heap st) + length (found_leagues d available_leagues file selected)]), st')
          \<and> heap st' = heap st @ map (tagged d available_leagues file)
                                   (found_leagues d available_leagues file selected)
          \<and> ui st' = ui st @ map (\<lambda>l. Warning (warning_msg file l))
                               (missing_leagues d available_leagues file selected)
          \<and> cache_consistent d st'"
  using assms
proof (induction selected arbitrary: dfs st)
  case Nil
  then show ?case
    by (simp add: found_leagues_def missing_leagues_def)
next
  case (Cons l rest)
  from Cons.prems(2) obtain lp where lp: "map_of available_leagues l = Some lp"
    by (cases "map_of available_leagues l") (auto simp: map_of_eq_None_iff)
  have p: "csv_path_of available_leagues file l = lp @ [file]"
    by (simp add: csv_path_of_def lp)
  have rest: "set rest \<subseteq> fst ` set available_leagues"
    using Cons.prems(2) by simp
  show ?case
  proof (cases "d (lp @ [file])")
    case None
    let ?st2 = "st\<lparr>ui := ui st @ [Warning (warning_msg file l)]\<rparr>"
    have c2: "cache_consistent d ?st2"
      using Cons.prems(1) by (simp add: cache_consistent_def)
    from Cons.IH [OF c2 rest, of dfs] obtain st' where
      run: "merge_loop d available_leagues file rest dfs ?st2
            = (Inr (dfs @ [length (heap st) ..<
                  length (heap st) + length (found_leagues d available_leagues file rest)]), st')"
      and h: "heap st' = heap st @ map (tagged d available_leagues file)
                                     (found_leagues d available_leagues file rest)"
      and u: "ui st' = ui ?st2 @ map (\<lambda>l. Warning (warning_msg file l))
                               (missing_leagues d available_leagues file rest)"
      and c: "cache_consistent d st'"
      by auto
    have f: "found_leagues d available_leagues file (l # rest) = found_leagues d available_leagues file rest"
      and m: "missing_leagues d available_leagues file (l # rest)
              = l # missing_leagues d available_leagues file rest"
      using None by (simp_all add: found_leagues_def missing_leagues_def p)
    have "merge_loop d available_leagues file (l # rest) dfs st
          = merge_loop d available_leagues file rest dfs ?st2"
      using load_csv_missing [OF Cons.prems(1) None] by (simp add: lp)
    with run h u c show ?thesis
      unfolding f m by simp
  next
    case (Some t)
    from load_csv_found [OF Cons.prems(1) Some] obtain st1 where
      ld: "load_csv d (lp @ [file]) st = (Inr (length (heap st)), st1)"
      and h1: "heap st1 = heap st @ [t]" and u1: "ui st1 = ui st"
      and c1: "cache_consistent d st1"
      by auto
    let ?st2 = "tag_league (length (heap st)) l st1"
    have tg: "tagged d available_leagues file l = setitem_scalar ''league'' (Str l) t"
      by (simp add: tagged_def p Some)
    have h2: "heap ?st2 = heap st @ [tagged d available_leagues file l]"
      using tag_league_fresh(1) [OF h1] tg by simp
    have u2: "ui ?st2 = ui st"
      using tag_league_fresh(3) [OF h1] u1 by simp
    have c2: "cache_consistent d ?st2"
      using c1 tag_league_fresh(2) [OF h1] by (simp add: cache_consistent_def)
    from Cons.IH [OF c2 rest, of "dfs @ [length (heap st)]"] obtain st' where
      run: "merge_loop d available_leagues file rest (dfs @ [length (heap st)]) ?st2
            = (Inr ((dfs @ [length (heap st)]) @ [length (heap ?st2) ..<
                  length (heap ?st2) + length (found_leagues d available_leagues file rest)]), st')"
      and h: "heap st' = heap ?st2 @ map (tagged d available_leagues file)
                                     (found_leagues d available_leagues file rest)"
      and u: "ui st' = ui ?st2 @ map (\<lambda>l. Warning (warning_msg file l))
                               (missing_leagues d available_leagues file rest)"
      and c: "cache_consistent d st'"
      by auto
    have f: "found_leagues d available_leagues file (l # rest)
             = l # found_leagues d available_leagues file rest"
      and m: "missing_leagues d available_leagues file (l # rest)
              = missing_leagues d available_leagues file rest"
      using Some by (simp_all add: found_leagues_def missing_leagues_def p)
    have step: "merge_loop d available_leagues file (l # rest) dfs st
          = merge_loop d available_leagues file rest (dfs @ [length (heap st)]) ?st2"
      using ld by (simp add: lp)
    have idx: "(dfs @ [length (heap st)]) @ [length (heap ?st2) ..<
                  length (heap ?st2) + length (found_leagues d available_leagues file rest)]
          = dfs @ [length (heap st) ..<
                  length (heap st) + length (found_leagues d available_leagues file (l # rest))]"
      unfolding f using upt_shift [of "length (heap st)"] by (simp add: h2)
    show ?thesis
      unfolding step run idx
      using h u c unfolding h2 u2 f m by simp
  qed
qed

lemma column_values_setitem_scalar:
  "column_values (setitem_scalar c v t) c = Some (replicate (nrows t) v)"
  by (simp add: column_values_def setitem_scalar_def update_Some_unfold)

text \<open>
  C2. The selected leagues are taken in selection order (they are keys of the catalogue,
  and the memoized entries are files of the disk). Each league whose file is missing adds
  exactly one warning and is skipped; the loop goes on. Each table that was loaded has
  the column \<^verbatim>\<open>league\<close> holding the league's name in every row. When no table was
  collected the merge shows the error, stops and allocates no combined table; otherwise
  the combined table is the concatenation of the tagged tables.
\<close>

theorem merge_selection:
  assumes "cache_consistent d st"
    and "set selected \<subseteq> fst ` set available_leagues"
  shows "\<exists>r st'. merge d available_leagues a selected st = (r, st')
          \<and> ui st' = ui st
               @ map (\<lambda>l. Warning (warning_msg (analysis_file a) l))
                   (missing_leagues d available_leagues (analysis_file a) selected)
               @ (if found_leagues d available_leagues (analysis_file a) selected = []
                  then [Error no_data_msg] else [])
          \<and> (found_leagues d available_leagues (analysis_file a) selected = [] \<longrightarrow>
               r = Inl StopException \<and> heap st' = heap st)
          \<and> (found_leagues d available_leagues (analysis_file a) selected \<noteq> [] \<longrightarrow>
               (\<exists>data. r = Inr data \<and> data < length (heap st')
                  \<and> heap st' ! data
                      = pd_concat (map (tagged d available_leagues (analysis_file a))
                          (found_leagues d available_leagues (analysis_file a) selected))))
          \<and> (\<forall>l \<in> set (found_leagues d available_leagues (analysis_file a) selected).
               tagged d available_leagues (analysis_file a) l \<in> set (heap st')
               \<and> column_values (tagged d available_leagues (analysis_file a) l) ''league''
                   = Some (replicate
                       (nrows (the (d (csv_path_of available_leagues (analysis_file a) l))))
                       (Str l)))"
proof -
  let ?file = "analysis_file a"
  let ?found = "found_leagues d available_leagues ?file selected"
  let ?missing = "missing_leagues d available_leagues ?file selected"
  let ?n = "length (heap st)"
  from merge_loop_run [OF assms, of ?file "[]"] obtain st1 where
    run: "merge_loop d available_leagues ?file selected [] st
          = (Inr [?n ..< ?n + length ?found], st1)"
    and h1: "heap st1 = heap st @ map (tagged d available_leagues ?file) ?found"
    and u1: "ui st1 = ui st @ map (\<lambda>l. Warning (warning_msg ?file l)) ?missing"
    by auto
  have tag: "column_values (tagged d available_leagues ?file l) ''league''
             = Some (replicate (nrows (the (d (csv_path_of available_leagues ?file l)))) (Str l))"
    for l
    unfolding tagged_def by (rule column_values_setitem_scalar)
  show ?thesis
  proof (cases "?found = []")
    case True
    then have "merge d available_leagues a selected st
               = (Inl StopException, st1\<lparr>ui := ui st1 @ [Error no_data_msg]\<rparr>)"
      by (simp add: merge_def run)
    with True h1 u1 show ?thesis by simp
  next
    case False
    have objs: "map (\<lambda>a. heap st1 ! a) [?n ..< ?n + length ?found]
                = map (tagged d available_leagues ?file) ?found"
      unfolding h1 by (rule nth_equalityI) (simp_all add: nth_append)
    have "merge d available_leagues a selected st
          = alloc (pd_concat (map (tagged d available_leagues ?file) ?found)) st1"
      using False by (simp add: merge_def run objs)
    then have m: "merge d available_leagues a selected st
          = (Inr (length (heap st1)),
             st1\<lparr>heap := heap st1 @ [pd_concat (map (tagged d available_leagues ?file) ?found)]\<rparr>)"
      by (simp add: alloc_def)
    let ?data = "pd_concat (map (tagged d available_leagues ?file) ?found)"
    have at: "(heap st1 @ [?data]) ! length (heap st1) = ?data"
      by simp
    have mem: "tagged d available_leagues ?file l \<in> set (heap st1 @ [?data])"
      if "l \<in> set ?found" for l
      using that h1 by simp
    show ?thesis
      unfolding m using False u1 tag at mem by simp
  qed
qed

lemma run_AB:
  "merge disk_A leagues_AB Stagione [''A'', ''B''] init
   = (Inr 1,
      \<lparr>heap = [setitem_scalar ''league'' (Str ''A'') table_A,
               pd_concat [setitem_scalar ''league'' (Str ''A'') table_A]],
       cache = [(path_A, table_A)], reads = [path_A],
       ui = [Warning (warning_msg ''analisi_stagioni.csv'' ''B'')]\<rparr>)"
  by (simp add: merge_def analysis_file_def leagues_AB_def load_csv_def cache_data_def
        load_csv_body_def exists_def read_csv_def alloc_def Let_def init_def disk_A_def path_A_def
        tag_league_def)

lemma concat_A:
  "pd_concat [setitem_scalar ''league'' (Str ''A'') table_A]
   = \<lparr>nrows = 1, cols = [(''season'', [Num 2023]), (''over_25_percentage'', [Num 50]),
                         (''league'', [Str ''A''])]\<rparr>"
  by (simp add: pd_concat_def setitem_scalar_def table_A_def union_columns_def columns_def
        column_or_nan_def)

theorem merge_selection_witness:
  "cache_consistent disk_A init \<and> set [''A'', ''B''] \<subseteq> fst ` set leagues_AB
   \<and> found_leagues disk_A leagues_AB (analysis_file Stagione) [''A'', ''B''] = [''A'']
   \<and> missing_leagues disk_A leagues_AB (analysis_file Stagione) [''A'', ''B''] = [''B'']
   \<and> (\<exists>r st' data. merge disk_A leagues_AB Stagione [''A'', ''B''] init = (r, st')
         \<and> ui st' = [Warning (warning_msg ''analisi_stagioni.csv'' ''B'')]
         \<and> r = Inr data
         \<and> heap st' ! data
             = \<lparr>nrows = 1, cols = [(''season'', [Num 2023]), (''over_25_percentage'', [Num 50]),
                         (''league'', [Str ''A''])]\<rparr>)"
proof -
  have hyp: "cache_consistent disk_A init" "set [''A'', ''B''] \<subseteq> fst ` set leagues_AB"
    by (simp_all add: cache_consistent_def init_def leagues_AB_def)
  have f: "found_leagues disk_A leagues_AB (analysis_file Stagione) [''A'', ''B''] = [''A'']"
    and m: "missing_leagues disk_A leagues_AB (analysis_file Stagione) [''A'', ''B''] = [''B'']"
    by (simp_all add: found_leagues_def missing_leagues_def csv_path_of_def leagues_AB_def
          analysis_file_def disk_A_def path_A_def)
  have t: "tagged disk_A leagues_AB (analysis_file Stagione) ''A''
           = setitem_scalar ''league'' (Str ''A'') table_A"
    by (simp add: tagged_def csv_path_of_def leagues_AB_def analysis_file_def disk_A_def path_A_def)
  have af: "analysis_file Stagione = ''analisi_stagioni.csv''"
    by (simp add: analysis_file_def)
  have u0: "ui init = []"
    by (simp add: init_def)
  from merge_selection [OF hyp, of Stagione] obtain r st' where
    1: "merge disk_A leagues_AB Stagione [''A'', ''B''] init = (r, st')"
    and 2: "ui st' = ui init @ [Warning (warning_msg (analysis_file Stagione) ''B'')]"
    and 3: "\<exists>data. r = Inr data \<and> heap st' ! data = pd_concat [tagged disk_A leagues_AB (analysis_file Stagione) ''A'']"
    unfolding f m by auto
  from 3 obtain data where 4: "r = Inr data"
    and 5: "heap st' ! data = pd_concat [setitem_scalar ''league'' (Str ''A'') table_A]"
    unfolding t by auto
  show ?thesis
    using hyp f m 1 2 4 5 unfolding af u0 concat_A by simp
qed

lemma load_A:
  "load_csv disk_A path_A init
   = (Inr 0, \<lparr>heap = [table_A], cache = [(path_A, table_A)], reads = [path_A], ui = []\<rparr>)"
  by (simp add: load_csv_def cache_data_def load_csv_body_def exists_def read_csv_def alloc_def
        Let_def init_def disk_A_def)

lemma loop_A:
  "merge_loop disk_A leagues_AB ''analisi_stagioni.csv'' [''A''] [] init
   = (Inr [0], \<lparr>heap = [setitem_scalar ''league'' (Str ''A'') table_A],
                 cache = [(path_A, table_A)], reads = [path_A], ui = []\<rparr>)"
  using load_A by (simp add: leagues_AB_def path_A_def tag_league_def)

text \<open>
  C8, as stated, fails: the merger assigns the column \<^verbatim>\<open>league\<close> on the very object the
  loader returned. With the file of league \<^verbatim>\<open>A\<close> on the disk, the object at address 0
  is the loaded table when the loader returns and has the extra column after the loop.
\<close>

theorem merger_mutates_loaded_table:
  "\<not> tags_a_copy disk_A leagues_AB ''analisi_stagioni.csv'' ''A'' init"
proof -
  have p: "csv_path_of leagues_AB ''analisi_stagioni.csv'' ''A'' = path_A"
    by (simp add: csv_path_of_def leagues_AB_def path_A_def)
  have "setitem_scalar ''league'' (Str ''A'') table_A \<noteq> table_A"
    by (simp add: setitem_scalar_def table_A_def)
  then show ?thesis
    unfolding tags_a_copy_def p load_A loop_A by simp
qed

text \<open>
  C8, amended. The merger tags the rows in place: after the loop has run for a league
  whose file was loaded, the object the loader returned holds the column \<^verbatim>\<open>league\<close>, no
  further table was allocated, every other table is as it was, and the memoized
  entries of the loader are as the loader left them.
\<close>

theorem merger_tags_in_place:
  assumes "map_of available_leagues league = Some league_path"
    and "load_csv d (league_path @ [file]) st = (Inr a, st1)"
  shows "\<exists>st2. merge_loop d available_leagues file [league] [] st = (Inr [a], st2)
           \<and> heap st2 ! a = setitem_scalar ''league'' (Str league) (heap st1 ! a)
           \<and> length (heap st2) = length (heap st1)
           \<and> (\<forall>b < length (heap st1). b \<noteq> a \<longrightarrow> heap st2 ! b = heap st1 ! b)
           \<and> cache st2 = cache st1"
proof -
  from load_csv_returns_fresh [OF assms(2)] have a: "a < length (heap st1)"
    by simp
  have "merge_loop d available_leagues file [league] [] st = (Inr [a], tag_league a league st1)"
    using assms by simp
  then show ?thesis
    using a by (simp add: tag_league_def)
qed

theorem merger_tags_in_place_witness:
  "map_of leagues_AB ''A'' = Some [''data'', ''A'']
   \<and> load_csv disk_A ([''data'', ''A''] @ [''analisi_stagioni.csv'']) init
       = (Inr 0, \<lparr>heap = [table_A], cache = [(path_A, table_A)], reads = [path_A], ui = []\<rparr>)
   \<and> (\<exists>st2. merge_loop disk_A leagues_AB ''analisi_stagioni.csv'' [''A''] [] init = (Inr [0], st2)
         \<and> heap st2 ! 0
             = \<lparr>nrows = 1, cols = [(''season'', [Num 2023]), (''over_25_percentage'', [Num 50]),
                                   (''league'', [Str ''A''])]\<rparr>
         \<and> length (heap st2) = 1
         \<and> cache st2 = [(path_A, table_A)])"
proof -
  have 1: "map_of leagues_AB ''A'' = Some [''data'', ''A'']"
    by (simp add: leagues_AB_def)
  have 2: "load_csv disk_A ([''data'', ''A''] @ [''analisi_stagioni.csv'']) init
       = (Inr 0, \<lparr>heap = [table_A], cache = [(path_A, table_A)], reads = [path_A], ui = []\<rparr>)"
    using load_A by (simp add: path_A_def)
  have 3: "setitem_scalar ''league'' (Str ''A'') table_A
           = \<lparr>nrows = 1, cols = [(''season'', [Num 2023]), (''over_25_percentage'', [Num 50]),
                                   (''league'', [Str ''A''])]\<rparr>"
    by (simp add: setitem_scalar_def table_A_def)
  from merger_tags_in_place [OF 1 2] show ?thesis
    using 1 2 3 by auto
qed

subsection \<open>Column Orderer\<close>

lemma filter_label_unique:
  "distinct (map fst al) \<Longrightarrow> n \<in> fst ` set al \<Longrightarrow>
   filter (\<lambda>(c, vs). c = n) al = [(n, the (map_of al n))]"
proof (induction al)
  case Nil
  then show ?case by simp
next
  case (Cons x al)
  obtain c vs where x: "x = (c, vs)" by (cases x)
  show ?case
  proof (cases "c = n")
    case True
    then have "n \<notin> fst ` set al"
      using Cons.prems(1) x by auto
    then have "\<forall>y \<in> set al. fst y \<noteq> n"
      by (auto simp: image_iff)
    then have "filter (\<lambda>(c, vs). c = n) al = []"
      by (simp add: filter_empty_conv case_prod_beta)
    with True x show ?thesis by simp
  next
    case False
    with Cons x show ?thesis by auto
  qed
qed

lemma getitem_columns_distinct:
  assumes "distinct (columns t)" and "set names \<subseteq> set (columns t)"
  shows "getitem_columns names t
         = Inr (t\<lparr>cols := map (\<lambda>n. (n, the (map_of (cols t) n))) names\<rparr>)"
proof -
  have "concat (map (\<lambda>n. filter (\<lambda>(c, vs). c = n) (cols t)) names)
        = map (\<lambda>n. (n, the (map_of (cols t) n))) names"
    using assms(2)
  proof (induction names)
    case Nil
    then show ?case by simp
  next
    case (Cons n names)
    then have "n \<in> fst ` set (cols t)"
      by (simp add: columns_def)
    from filter_label_unique [OF _ this] assms(1) Cons show ?case
      by (simp add: columns_def)
  qed
  moreover have "\<not> list_ex (\<lambda>n. n \<notin> set (columns t)) names"
    using assms(2) by (auto simp: list_ex_iff)
  ultimately show ?thesis
    by (simp add: getitem_columns_def)
qed

lemma order_cols_preferred: "order_cols a outs = preferred a outs"
  by (cases a) (simp_all add: order_cols_def preferred_def id_cols_def)

lemma extra_cols_eq:
  "filter (\<lambda>col. col \<notin> set (filter (\<lambda>c. c \<in> set cs) os)) cs = filter (\<lambda>col. col \<notin> set os) cs"
  by (rule filter_cong) auto

lemma reorder_columns_eq:
  assumes "distinct (columns data)"
  shows "reorder_columns a outs data
         = Inr (data\<lparr>cols := map (\<lambda>n. (n, the (map_of (cols data) n)))
                   (filter (\<lambda>c. c \<in> set (columns data)) (preferred a outs)
                    @ filter (\<lambda>c. c \<notin> set (preferred a outs)) (columns data))\<rparr>)"
proof -
  have "set (filter (\<lambda>c. c \<in> set (columns data)) (preferred a outs)
             @ filter (\<lambda>c. c \<notin> set (preferred a outs)) (columns data)) \<subseteq> set (columns data)"
    by auto
  from getitem_columns_distinct [OF assms this] show ?thesis
    unfolding reorder_columns_def Let_def order_cols_preferred extra_cols_eq .
qed

text \<open>
  C3. For a combined table (its labels are pairwise different), a granularity and the
  selected outcomes in selection order, the reordering succeeds and the labels come out
  as: \<^verbatim>\<open>league\<close>, \<^verbatim>\<open>season\<close>, \<^verbatim>\<open>round\<close> (only for the per-round analysis), the count
  column of each outcome, the percentage column of each outcome, each only when the table
  has it, then every other column in its original relative order. The witness is the
  example of the specification.
\<close>

theorem reorder_columns_order:
  assumes "distinct (columns data)"
  shows "\<exists>t. reorder_columns a outcomes data = Inr t
           \<and> columns t = filter (\<lambda>c. c \<in> set (columns data)) (preferred a outcomes)
                         @ filter (\<lambda>c. c \<notin> set (preferred a outcomes)) (columns data)"
  unfolding reorder_columns_eq [OF assms]
  by (simp add: columns_def comp_def)

theorem reorder_columns_order_witness:
  "distinct (columns (table_of_labels
      [''round'', ''extra'', ''season'', ''over_25_percentage'', ''league'', ''over_25_count'']))
   \<and> (\<exists>t. reorder_columns Giornata [''over_25''] (table_of_labels
      [''round'', ''extra'', ''season'', ''over_25_percentage'', ''league'', ''over_25_count'']) = Inr t
         \<and> columns t = [''league'', ''season'', ''round'', ''over_25_count'', ''over_25_percentage'', ''extra''])"
  using reorder_columns_order [of "table_of_labels
      [''round'', ''extra'', ''season'', ''over_25_percentage'', ''league'', ''over_25_count'']"
      Giornata "[''over_25'']"]
  by (simp add: table_of_labels_def columns_def preferred_def)

lemma count_neq_percentage: "a @ ''_count'' \<noteq> b @ ''_percentage''"
proof
  assume "a @ ''_count'' = b @ ''_percentage''"
  then have "last (a @ ''_count'') = last (b @ ''_percentage'')" by simp
  then show False by simp
qed

lemma count_not_id: "a @ ''_count'' \<notin> {''league'', ''season'', ''round''}"
proof
  assume "a @ ''_count'' \<in> {''league'', ''season'', ''round''}"
  then have "last (a @ ''_count'') \<in> {last ''league'', last ''season'', last ''round''}"
    by auto
  then show False by simp
qed

lemma percentage_not_id: "a @ ''_percentage'' \<notin> {''league'', ''season'', ''round''}"
proof
  assume "a @ ''_percentage'' \<in> {''league'', ''season'', ''round''}"
  then have "length (a @ ''_percentage'') \<in> {length ''league'', length ''season'', length ''round''}"
    by auto
  then show False by simp
qed

lemma distinct_preferred:
  assumes "distinct outs"
  shows "distinct (preferred a outs)"
proof -
  have c: "distinct (map (\<lambda>outcome. outcome @ ''_count'') outs)"
    and p: "distinct (map (\<lambda>outcome. outcome @ ''_percentage'') outs)"
    using assms by (simp_all add: distinct_map inj_on_def)
  have cp: "set (map (\<lambda>outcome. outcome @ ''_count'') outs)
            \<inter> set (map (\<lambda>outcome. outcome @ ''_percentage'') outs) = {}"
    using count_neq_percentage by auto
  have ci: "set (map (\<lambda>outcome. outcome @ ''_count'') outs) \<inter> {''league'', ''season'', ''round''} = {}"
    using count_not_id by auto
  have pi: "set (map (\<lambda>outcome. outcome @ ''_percentage'') outs) \<inter> {''league'', ''season'', ''round''} = {}"
    using percentage_not_id by auto
  show ?thesis
    unfolding preferred_def using c p cp ci pi
    by (cases a) auto
qed

lemma mset_reordered:
  assumes "distinct os" and "distinct cs"
  shows "mset (filter (\<lambda>c. c \<in> set cs) os @ filter (\<lambda>c. c \<notin> set os) cs) = mset cs"
proof -
  let ?A = "filter (\<lambda>c. c \<in> set cs) os" and ?B = "filter (\<lambda>c. c \<in> set os) cs"
  have s: "set ?A = set ?B"
    by auto
  have dA: "distinct ?A" and dB: "distinct ?B"
    using assms by simp_all
  from dA dB have "(set ?A = set ?B) = (mset ?A = mset ?B)"
    by (rule set_eq_iff_mset_eq_distinct)
  with s have "mset ?A = mset ?B"
    by blast
  then have "mset (?A @ filter (\<lambda>c. c \<notin> set os) cs)
             = mset ?B + mset (filter (\<lambda>c. c \<notin> set os) cs)"
    by (simp only: mset_append)
  also have "\<dots> = mset cs"
    by (simp only: mset_filter multiset_partition [symmetric])
  finally show ?thesis .
qed

lemma cols_from_labels:
  assumes "distinct (map fst al)"
  shows "map (\<lambda>n. (n, the (map_of al n))) (map fst al) = al"
proof -
  have "(fst x, the (map_of al (fst x))) = x" if "x \<in> set al" for x
  proof -
    from that have "(fst x, snd x) \<in> set al" by simp
    with assms have "map_of al (fst x) = Some (snd x)"
      by (rule map_of_is_SomeI)
    then show ?thesis by simp
  qed
  then show ?thesis
    by (simp add: comp_def map_idI)
qed

text \<open>
  C10. With pairwise different outcomes (and pairwise different labels in the table) the
  reordering is a permutation of the columns: the labelled columns of the result are
  those of the input, each once, with the same cells, and the number of rows is the same.
\<close>

theorem reorder_columns_permutation:
  assumes "distinct outcomes" and "distinct (columns data)"
  shows "\<exists>t. reorder_columns a outcomes data = Inr t
           \<and> mset (cols t) = mset (cols data)
           \<and> distinct (columns t)
           \<and> set (columns t) = set (columns data)
           \<and> nrows t = nrows data
           \<and> (\<forall>c. column_values t c = column_values data c)"
proof -
  let ?names = "filter (\<lambda>c. c \<in> set (columns data)) (preferred a outcomes)
                @ filter (\<lambda>c. c \<notin> set (preferred a outcomes)) (columns data)"
  let ?t = "data\<lparr>cols := map (\<lambda>n. (n, the (map_of (cols data) n))) ?names\<rparr>"
  have run: "reorder_columns a outcomes data = Inr ?t"
    by (rule reorder_columns_eq [OF assms(2)])
  have perm: "mset ?names = mset (columns data)"
    by (rule mset_reordered [OF distinct_preferred [OF assms(1)] assms(2)])
  have "mset (cols ?t) = image_mset (\<lambda>n. (n, the (map_of (cols data) n))) (mset ?names)"
    by simp
  also have "\<dots> = mset (map (\<lambda>n. (n, the (map_of (cols data) n))) (columns data))"
    unfolding perm by simp
  also have "\<dots> = mset (cols data)"
    using cols_from_labels [of "cols data"] assms(2) by (simp add: columns_def)
  finally have m: "mset (cols ?t) = mset (cols data)" .
  have labels: "columns ?t = ?names"
    by (simp add: columns_def comp_def)
  have d: "distinct (columns ?t)"
    unfolding labels using perm assms(2) by (metis mset_eq_imp_distinct_iff)
  have s: "set (columns ?t) = set (columns data)"
    unfolding labels using perm by (metis mset_eq_setD)
  have v: "column_values ?t c = column_values data c" for c
  proof -
    have "distinct (map fst (cols ?t))" "distinct (map fst (cols data))"
      using d assms(2) by (simp_all add: columns_def)
    moreover have "set (cols ?t) = set (cols data)"
      using m by (rule mset_eq_setD)
    ultimately have "map_of (cols ?t) = map_of (cols data)"
      by (rule map_of_inject_set [THEN iffD2])
    then show ?thesis
      by (simp add: column_values_def)
  qed
  show ?thesis
    unfolding run using m d s v by simp
qed

theorem reorder_columns_permutation_witness:
  "distinct [''over_25''] \<and> distinct (columns table_A)
   \<and> (\<exists>t. reorder_columns Stagione [''over_25''] table_A = Inr t
        \<and> mset (cols t) = mset (cols table_A)
        \<and> set (columns t) = {''season'', ''over_25_percentage''}
        \<and> nrows t = 1)"
  using reorder_columns_permutation [of "[''over_25'']" table_A Stagione]
  by (auto simp: table_A_def columns_def)

subsection \<open>Rounding to \<^verbatim>\<open>float64\<close>\<close>


lemma nat_power_bounds:
  assumes "0 < n"
  shows "(2::rat) powi (int (floorlog 2 n) - 1) \<le> of_nat n"
    and "of_nat n < (2::rat) powi int (floorlog 2 n)"
proof -
  let ?k = "floorlog 2 n"
  from floorlog_bounds [of n 2] assms
  have lo: "2 ^ (?k - 1) \<le> n" and hi: "n < 2 ^ ?k"
    by simp_all
  have pos: "0 < ?k"
    using assms by (simp add: floorlog_def)
  then have "int ?k - 1 = int (?k - 1)"
    by simp
  then have "(2::rat) powi (int ?k - 1) = 2 ^ (?k - 1)"
    by (simp only: power_int_of_nat)
  moreover have "(of_nat (2 ^ (?k - 1)) :: rat) \<le> of_nat n"
    using lo by (rule of_nat_mono)
  ultimately show "(2::rat) powi (int ?k - 1) \<le> of_nat n"
    by simp
  have "(of_nat n :: rat) < of_nat (2 ^ ?k)"
    using hi by (simp only: of_nat_less_iff)
  then show "of_nat n < (2::rat) powi int ?k"
    by (simp only: power_int_of_nat of_nat_power of_nat_numeral)
qed

lemma expo_bounds:
  assumes "x \<noteq> 0"
  shows "2 powi expo x \<le> \<bar>x\<bar>" and "\<bar>x\<bar> < 2 powi (expo x + 1)"
proof -
  obtain p q where pq: "quotient_of \<bar>x\<bar> = (p, q)"
    by (cases "quotient_of \<bar>x\<bar>")
  have q: "0 < q"
    using pq by (rule quotient_of_denom_pos)
  have x: "\<bar>x\<bar> = of_int p / of_int q"
    using pq by (rule quotient_of_div)
  have "0 < \<bar>x\<bar>"
    using assms by simp
  then have p: "0 < p"
    unfolding x using q by (simp add: zero_less_divide_iff)
  let ?bp = "int (floorlog 2 (nat p))" and ?bq = "int (floorlog 2 (nat q))"
  let ?g = "?bp - ?bq"
  have P: "(of_nat (nat p) :: rat) = of_int p" and Q: "(of_nat (nat q) :: rat) = of_int q"
    using p q by simp_all
  have p_lo: "(2::rat) powi (?bp - 1) \<le> of_int p" and p_hi: "of_int p < (2::rat) powi ?bp"
    using nat_power_bounds [of "nat p"] p unfolding P by simp_all
  have q_lo: "(2::rat) powi (?bq - 1) \<le> of_int q" and q_hi: "of_int q < (2::rat) powi ?bq"
    using nat_power_bounds [of "nat q"] q unfolding Q by simp_all
  have pw: "0 < (2::rat) powi k" for k
    by simp
  have upper: "\<bar>x\<bar> < 2 powi (?g + 1)"
  proof -
    have "of_int p / of_int q < (2::rat) powi ?bp / 2 powi (?bq - 1)"
      using p q p_hi q_lo pw [of "?bq - 1"]
      by (intro frac_less) simp_all
    also have "\<dots> = 2 powi (?bp - (?bq - 1))"
      by (simp add: power_int_diff)
    also have "?bp - (?bq - 1) = ?g + 1"
      by simp
    finally show ?thesis
      unfolding x .
  qed
  have lower: "2 powi (?g - 1) < \<bar>x\<bar>"
  proof -
    have "(2::rat) powi (?bp - 1) / 2 powi ?bq < of_int p / of_int q"
      using p q p_lo q_hi pw [of "?bp - 1"]
      by (intro frac_less2) simp_all
    moreover have "(2::rat) powi (?bp - 1) / 2 powi ?bq = 2 powi ((?bp - 1) - ?bq)"
      by (simp add: power_int_diff)
    moreover have "(?bp - 1) - ?bq = ?g - 1"
      by simp
    ultimately show ?thesis
      unfolding x by simp
  qed
  have e: "expo x = (if 2 powi ?g \<le> \<bar>x\<bar> then ?g else ?g - 1)"
    by (simp add: expo_def pq Let_def)
  show "2 powi expo x \<le> \<bar>x\<bar>"
    unfolding e using lower by (simp add: less_imp_le)
  show "\<bar>x\<bar> < 2 powi (expo x + 1)"
    unfolding e using upper by (simp add: not_le)
qed

lemma expo_unique:
  assumes "2 powi e \<le> \<bar>x\<bar>" and "\<bar>x\<bar> < 2 powi (e + 1)"
  shows "expo x = e"
proof -
  have "x \<noteq> 0"
  proof
    assume "x = 0"
    with assms(1) have "(2::rat) powi e \<le> 0"
      by simp
    moreover have "0 < (2::rat) powi e"
      by (rule zero_less_power_int) simp
    ultimately show False
      by (blast dest: leD)
  qed
  then have b: "2 powi expo x \<le> \<bar>x\<bar>" "\<bar>x\<bar> < 2 powi (expo x + 1)"
    by (rule expo_bounds)+
  have "\<not> e + 1 \<le> expo x"
  proof
    assume "e + 1 \<le> expo x"
    then have "(2::rat) powi (e + 1) \<le> 2 powi expo x"
      by (rule power_int_increasing) simp
    with b(1) assms(2) show False by linarith
  qed
  moreover have "\<not> expo x + 1 \<le> e"
  proof
    assume "expo x + 1 \<le> e"
    then have "(2::rat) powi (expo x + 1) \<le> 2 powi e"
      by (rule power_int_increasing) simp
    with b(2) assms(1) show False by linarith
  qed
  ultimately show ?thesis by linarith
qed








lemma round_half_even_int: "round_half_even (of_int k) = k"
  by (simp add: round_half_even_def Let_def)

lemma fl_exact:
  assumes "x / 2 powi (expo x - 52) = of_int m"
  shows "fl x = x"
proof (cases "x = 0")
  case True
  then show ?thesis by (simp add: fl_def)
next
  case False
  have u: "(2::rat) powi (expo x - 52) \<noteq> 0"
    by simp
  have "fl x = of_int (round_half_even (x / 2 powi (expo x - 52))) * 2 powi (expo x - 52)"
    using False by (simp add: fl_def Let_def)
  also have "\<dots> = x / 2 powi (expo x - 52) * 2 powi (expo x - 52)"
    unfolding assms round_half_even_int ..
  also have "\<dots> = x"
    using u by simp
  finally show ?thesis .
qed

lemma two_powi_int:
  assumes "0 \<le> n"
  shows "(2::rat) powi n = of_int (2 ^ nat n)"
  using assms by (simp add: power_int_def)

lemma fl_representable:
  assumes "\<bar>m\<bar> \<le> 2 ^ 53"
  shows "fl (of_int m * 2 powi q) = of_int m * 2 powi q"
proof (cases "m = 0")
  case True
  then show ?thesis by (simp add: fl_def)
next
  case False
  let ?x = "of_int m * (2::rat) powi q"
  have x0: "?x \<noteq> 0"
    using False by simp
  have ax: "\<bar>?x\<bar> = of_int \<bar>m\<bar> * 2 powi q"
    by (simp add: abs_mult)
  note b = expo_bounds [OF x0]
  show ?thesis
  proof (cases "\<bar>m\<bar> = 2 ^ 53")
    case True
    have "\<bar>?x\<bar> = 2 powi (53 + q)"
      unfolding ax True by (simp add: power_int_add)
    then have e: "expo ?x = 53 + q"
      by (intro expo_unique) (simp_all add: power_int_add)
    have "?x / 2 powi (expo ?x - 52) = of_int m * (2 powi q / 2 powi (q + 1))"
      unfolding e by (simp add: algebra_simps)
    also have "(2::rat) powi q / 2 powi (q + 1) = 1 / 2"
      by (simp add: power_int_add)
    finally have "?x / 2 powi (expo ?x - 52) = of_int m / 2"
      by simp
    moreover have "even m"
    proof -
      have "even \<bar>m\<bar>" unfolding True by simp
      then show ?thesis by simp
    qed
    then obtain k where "m = 2 * k" ..
    ultimately have "?x / 2 powi (expo ?x - 52) = of_int k"
      by simp
    then show ?thesis
      by (rule fl_exact)
  next
    case False
    with assms have lt: "\<bar>m\<bar> < 2 ^ 53"
      by simp
    have "\<bar>?x\<bar> < 2 powi (53 + q)"
    proof -
      have "(of_int \<bar>m\<bar> :: rat) < of_int (2 ^ 53)"
        using lt by (simp only: of_int_less_iff)
      then have "(of_int \<bar>m\<bar> :: rat) * 2 powi q < 2 ^ 53 * 2 powi q"
        by (intro mult_strict_right_mono) simp_all
      then show ?thesis
        unfolding ax by (simp add: power_int_add)
    qed
    with b(1) have "(2::rat) powi expo ?x < 2 powi (53 + q)"
      by (rule le_less_trans)
    then have "\<not> 53 + q \<le> expo ?x"
      using power_int_increasing [of "53 + q" "expo ?x" "2::rat"] by auto
    then have "expo ?x < 53 + q"
      by simp
    then have n: "0 \<le> q - (expo ?x - 52)"
      by simp
    have "?x / 2 powi (expo ?x - 52) = of_int m * 2 powi (q - (expo ?x - 52))"
      by (simp add: power_int_diff)
    also have "\<dots> = of_int (m * 2 ^ nat (q - (expo ?x - 52)))"
      unfolding two_powi_int [OF n] by simp
    finally show ?thesis
      by (rule fl_exact)
  qed
qed


subsection \<open>Presentation Formatter\<close>

lemma update_mapped:
  assumes "distinct (map fst al)" and "(c, vs) \<in> set al" and "c \<notin> D"
  shows "AList.update c (h vs) (map (\<lambda>(k, w). if k \<in> D then (k, h w) else (k, w)) al)
         = map (\<lambda>(k, w). if k \<in> insert c D then (k, h w) else (k, w)) al"
  using assms
proof (induction al)
  case Nil
  then show ?case by simp
next
  case (Cons x al)
  obtain k w where x: "x = (k, w)" by (cases x)
  show ?case
  proof (cases "k = c")
    case True
    with Cons.prems x have w: "w = vs"
      by (auto simp: image_iff)
    have "c \<notin> fst ` set al"
      using Cons.prems(1) True x by simp
    then have "map (\<lambda>(k, w). if k \<in> insert c D then (k, h w) else (k, w)) al
               = map (\<lambda>(k, w). if k \<in> D then (k, h w) else (k, w)) al"
      by (intro map_cong) (auto simp: image_iff)
    with True w x Cons.prems(3) show ?thesis by simp
  next
    case False
    with Cons x show ?thesis by auto
  qed
qed

lemma map_of_mapped_fresh:
  assumes "distinct (map fst al)" and "(c, vs) \<in> set al" and "c \<notin> D"
  shows "map_of (map (\<lambda>(k, w). if k \<in> D then (k, h w) else (k, w)) al) c = Some vs"
  using assms
proof (induction al)
  case Nil
  then show ?case by simp
next
  case (Cons x al)
  obtain k w where x: "x = (k, w)" by (cases x)
  show ?case
  proof (cases "k = c")
    case True
    with Cons.prems x have "w = vs"
      by (auto simp: image_iff)
    with True x Cons.prems(3) show ?thesis by simp
  next
    case False
    with Cons x show ?thesis by auto
  qed
qed

lemma format_loop_run:
  assumes "a < length (heap st)"
    and "cols (heap st ! a) = map (\<lambda>(k, w). if k \<in> D then (k, map (\<lambda>v. round2_cell (float_cell v)) w) else (k, w)) al"
    and "distinct (map fst al)"
    and "set ls \<subseteq> fst ` set al" and "set ls \<inter> D = {}" and "distinct ls"
    and "\<forall>(c, vs) \<in> set al. c \<in> set ls \<longrightarrow> \<not> list_ex is_str vs"
  shows "format_loop ls a st
         = (Inr (), st\<lparr>heap := (heap st)[a := (heap st ! a)
               \<lparr>cols := map (\<lambda>(k, w). if k \<in> D \<union> set ls then (k, map (\<lambda>v. round2_cell (float_cell v)) w) else (k, w)) al\<rparr>]\<rparr>)"
  using assms
proof (induction ls arbitrary: st D)
  case Nil
  then have "(heap st ! a)\<lparr>cols := map (\<lambda>(k, w). if k \<in> D then (k, map (\<lambda>v. round2_cell (float_cell v)) w) else (k, w)) al\<rparr>
             = heap st ! a"
    by simp
  then show ?case by simp
next
  case (Cons c ls)
  from Cons.prems(4) obtain vs where vs: "(c, vs) \<in> set al"
    by auto
  have cD: "c \<notin> D"
    using Cons.prems(5) by auto
  have get: "getitem (heap st ! a) c = Inr vs"
    using map_of_mapped_fresh [OF Cons.prems(3) vs cD, of "map (\<lambda>v. round2_cell (float_cell v))"] Cons.prems(2)
    by (simp add: getitem_def)
  have num: "\<not> list_ex is_str vs"
    using Cons.prems(7) vs by auto
  let ?t = "setitem c (series_round2 (map float_cell vs)) (heap st ! a)"
  let ?st = "st\<lparr>heap := (heap st)[a := ?t]\<rparr>"
  have step: "format_loop (c # ls) a st = format_loop ls a ?st"
    using get num by (simp add: astype_float_def)
  have cols': "cols (heap ?st ! a)
               = map (\<lambda>(k, w). if k \<in> insert c D then (k, map (\<lambda>v. round2_cell (float_cell v)) w) else (k, w)) al"
    using Cons.prems(1,2) update_mapped [OF Cons.prems(3) vs cD, of "map (\<lambda>v. round2_cell (float_cell v))"]
    by (simp add: setitem_def series_round2_def comp_def)
  have IH: "format_loop ls a ?st
        = (Inr (), ?st\<lparr>heap := (heap ?st)[a := (heap ?st ! a)
               \<lparr>cols := map (\<lambda>(k, w). if k \<in> insert c D \<union> set ls then (k, map (\<lambda>v. round2_cell (float_cell v)) w) else (k, w)) al\<rparr>]\<rparr>)"
  proof (rule Cons.IH)
    show "a < length (heap ?st)" using Cons.prems(1) by simp
    show "cols (heap ?st ! a) = map (\<lambda>(k, w). if k \<in> insert c D then (k, map (\<lambda>v. round2_cell (float_cell v)) w) else (k, w)) al"
      by (rule cols')
    show "distinct (map fst al)" by (rule Cons.prems(3))
    show "set ls \<subseteq> fst ` set al" using Cons.prems(4) by simp
    show "set ls \<inter> insert c D = {}" using Cons.prems(5,6) by auto
    show "distinct ls" using Cons.prems(6) by simp
    show "\<forall>(c, vs) \<in> set al. c \<in> set ls \<longrightarrow> \<not> list_ex is_str vs"
      using Cons.prems(7) by auto
  qed
  have same: "insert c D \<union> set ls = D \<union> set (c # ls)"
    by auto
  show ?case
    unfolding step IH same using Cons.prems(1) by (simp add: setitem_def)
qed


lemma format_percentage_columns_run:
  assumes "df < length (heap st)"
    and "distinct (columns (heap st ! df))"
    and "numeric_percentages (heap st ! df)"
  shows "format_percentage_columns df st
         = (Inr (length (heap st)), st\<lparr>heap := heap st @ [formatted (heap st ! df)]\<rparr>)"
proof -
  let ?t = "heap st ! df"
  let ?al = "cols ?t"
  let ?ls = "filter (\<lambda>col. suffix ''_percentage'' col) (columns ?t)"
  let ?a = "length (heap st)"
  let ?st1 = "st\<lparr>heap := heap st @ [?t]\<rparr>"
  have at: "heap ?st1 ! ?a = ?t"
    by simp
  have loop: "format_loop ?ls ?a ?st1
         = (Inr (), ?st1\<lparr>heap := (heap ?st1)[?a := (heap ?st1 ! ?a)
               \<lparr>cols := map (\<lambda>(k, w). if k \<in> {} \<union> set ?ls then (k, map (\<lambda>v. round2_cell (float_cell v)) w) else (k, w)) ?al\<rparr>]\<rparr>)"
  proof (rule format_loop_run)
    show "?a < length (heap ?st1)" by simp
    show "cols (heap ?st1 ! ?a) = map (\<lambda>(k, w). if k \<in> {} then (k, map (\<lambda>v. round2_cell (float_cell v)) w) else (k, w)) ?al"
      unfolding at by (simp add: case_prod_beta)
    show "distinct (map fst ?al)" using assms(2) by (simp add: columns_def)
    show "set ?ls \<subseteq> fst ` set ?al" by (auto simp: columns_def)
    show "set ?ls \<inter> {} = {}" by simp
    show "distinct ?ls" using assms(2) by simp
    show "\<forall>(c, vs) \<in> set ?al. c \<in> set ?ls \<longrightarrow> \<not> list_ex is_str vs"
      using assms(3) by (auto simp: numeric_percentages_def list_all_iff)
  qed
  have "map (\<lambda>(k, w). if k \<in> {} \<union> set ?ls then (k, map (\<lambda>v. round2_cell (float_cell v)) w) else (k, w)) ?al
        = map (\<lambda>(c, vs). if suffix ''_percentage'' c then (c, map (\<lambda>v. round2_cell (float_cell v)) vs) else (c, vs)) ?al"
  proof (rule map_cong [OF refl])
    fix x assume x: "x \<in> set ?al"
    obtain k w where kw: "x = (k, w)" by (cases x)
    from x kw have "k \<in> set (columns ?t)"
      by (force simp: columns_def)
    then show "(case x of (k, w) \<Rightarrow> if k \<in> {} \<union> set ?ls then (k, map (\<lambda>v. round2_cell (float_cell v)) w) else (k, w))
               = (case x of (c, vs) \<Rightarrow> if suffix ''_percentage'' c then (c, map (\<lambda>v. round2_cell (float_cell v)) vs) else (c, vs))"
      by (simp add: kw)
  qed
  then have m: "map (\<lambda>(k, w). if k \<in> {} \<union> set ?ls then (k, map (\<lambda>v. round2_cell (float_cell v)) w) else (k, w)) ?al
           = cols (formatted ?t)"
    by (simp add: formatted_def)
  have f: "(heap ?st1 ! ?a)\<lparr>cols := cols (formatted ?t)\<rparr> = formatted ?t"
    unfolding at by (simp add: formatted_def)
  have "format_percentage_columns df st
        = (Inr ?a, ?st1\<lparr>heap := (heap ?st1)[?a := formatted ?t]\<rparr>)"
    unfolding format_percentage_columns_def Let_def copy_def
    by (simp only: prod.case loop m f sum.case)
  then show ?thesis
    by simp
qed






























subsection \<open>Highlighting\<close>

lemma set_numbers: "set (numbers vs) = {x. Num x \<in> set vs}"
  by (induction vs rule: numbers.induct) auto

lemma max_cell_is_max:
  assumes "i < length vs"
  shows "eq_cell (vs ! i) (max_cell vs) \<longleftrightarrow> is_column_max vs i"
proof (cases "numbers vs")
  case Nil
  then have none: "\<And>x. Num x \<notin> set vs"
    using set_numbers [of vs] by auto
  have "\<not> is_column_max vs i"
    using none assms by (auto simp: is_column_max_def dest: nth_mem)
  moreover have "max_cell vs = NaN"
    using Nil by (simp add: max_cell_def)
  ultimately show ?thesis
    by (cases "vs ! i") simp_all
next
  case (Cons x xs)
  let ?M = "Max (set (x # xs))"
  have "fold max xs x = ?M"
    by (rule Max.set_eq_fold [symmetric])
  then have m: "max_cell vs = Num ?M"
    using Cons by (simp add: max_cell_def)
  have nums: "\<And>y. Num y \<in> set vs \<longleftrightarrow> y \<in> set (x # xs)"
    using set_numbers [of vs] Cons by auto
  have Min: "?M \<in> set (x # xs)"
    by (rule Max_in) simp_all
  have ub: "\<And>y. y \<in> set (x # xs) \<Longrightarrow> y \<le> ?M"
    by (rule Max_ge) simp_all
  show ?thesis
  proof
    assume "eq_cell (vs ! i) (max_cell vs)"
    then have "vs ! i = Num ?M"
      unfolding m by (cases "vs ! i") simp_all
    then show "is_column_max vs i"
      unfolding is_column_max_def using ub nums by blast
  next
    assume "is_column_max vs i"
    then obtain y where y: "vs ! i = Num y" and top: "\<forall>z. Num z \<in> set vs \<longrightarrow> z \<le> y"
      unfolding is_column_max_def by blast
    have "Num y \<in> set vs"
      using y assms nth_mem by metis
    then have "y \<in> set (x # xs)"
      using nums by blast
    then have "y \<le> ?M" by (rule ub)
    moreover have "?M \<le> y"
      using top Min nums by blast
    ultimately have "y = ?M" by (rule order_antisym)
    then show "eq_cell (vs ! i) (max_cell vs)"
      unfolding m y by simp
  qed
qed

lemma highlight_css_nonempty: "highlight_css \<noteq> []"
  by (simp add: highlight_css_def)

lemma column_style_cell:
  assumes "i < length (snd s)"
  shows "(column_style hl s ! i = highlight_css \<longleftrightarrow> fst s \<in> set hl \<and> is_column_max (snd s) i)
         \<and> (column_style hl s ! i = highlight_css \<or> column_style hl s ! i = [])"
  using assms max_cell_is_max [OF assms] highlight_css_nonempty
  by (auto simp: column_style_def)

lemma length_column_style: "length (column_style hl s) = length (snd s)"
  by (simp add: column_style_def)

lemma highlight_max_numeric:
  assumes "fst s \<in> set hl \<longrightarrow> \<not> list_ex is_str (snd s)"
  shows "highlight_max hl s = Inr (column_style hl s)"
  using assms
  by (simp add: highlight_max_def series_max_def column_style_def max_cell_def split: list.splits)

lemma style_apply_all:
  assumes "\<forall>s \<in> set ss. f s = Inr (g s)"
  shows "style_apply f ss = Inr (map g ss)"
  using assms by (induction ss) simp_all

lemma not_str_round2: "is_str (round2_cell (float_cell v)) = is_str v"
  by (cases v) simp_all

lemma formatted_numeric:
  assumes "numeric_percentages t" and "s \<in> set (cols (formatted t))"
    and "fst s \<in> set (map (\<lambda>outcome. outcome @ ''_percentage'') outs)"
  shows "\<not> list_ex is_str (snd s)"
proof -
  obtain c vs where s: "s = (c, vs)" by (cases s)
  from assms(3) s have suf: "suffix ''_percentage'' c"
    by (auto simp: suffix_def)
  from assms(2) s suf obtain ws where ws: "(c, ws) \<in> set (cols t)"
    and vs: "vs = map (\<lambda>v. round2_cell (float_cell v)) ws"
    by (auto simp: formatted_def split: if_splits)
  from assms(1) ws suf have "\<not> list_ex is_str ws"
    by (auto simp: numeric_percentages_def list_all_iff)
  then show ?thesis
    by (simp add: s vs list_ex_iff not_str_round2)
qed

lemma render_table_run:
  assumes "df < length (heap st)"
    and "distinct (columns (heap st ! df))"
    and "numeric_percentages (heap st ! df)"
    and "\<not> empty (heap st ! df)"
  shows "render_table df outs st
         = (Inr (), st\<lparr>heap := heap st @ [formatted (heap st ! df)],
                       ui := ui st @ [Dataframe (formatted (heap st ! df))
                         (map (column_style (map (\<lambda>outcome. outcome @ ''_percentage'') outs))
                            (cols (formatted (heap st ! df))))]\<rparr>)"
proof -
  let ?hl = "map (\<lambda>outcome. outcome @ ''_percentage'') outs"
  let ?shown = "formatted (heap st ! df)"
  let ?st1 = "st\<lparr>heap := heap st @ [?shown]\<rparr>"
  have fmt: "format_percentage_columns df st = (Inr (length (heap st)), ?st1)"
    using assms(1-3) by (rule format_percentage_columns_run)
  have at: "heap ?st1 ! length (heap st) = ?shown"
    by simp
  have "\<forall>s \<in> set (cols ?shown). highlight_max ?hl s = Inr (column_style ?hl s)"
    using formatted_numeric [OF assms(3)] highlight_max_numeric by blast
  then have sty: "style_apply (highlight_max ?hl) (cols ?shown) = Inr (map (column_style ?hl) (cols ?shown))"
    by (rule style_apply_all)
  show ?thesis
    unfolding render_table_def Let_def fmt
    using assms(4) by (simp only: if_False prod.case sum.case at sty) simp
qed

text \<open>
  C4. For a table that is shown (not empty, labels pairwise different, no text in the
  percentage columns) the table displayed is the formatted one, and a cell of it carries
  the highlight style exactly when its column is the percentage column of a selected
  outcome and its value is the maximum of that column; every cell at the maximum is
  highlighted, and every other cell, in every column, has the empty style.
\<close>

theorem render_table_highlights:
  assumes "df < length (heap st)"
    and "distinct (columns (heap st ! df))"
    and "numeric_percentages (heap st ! df)"
    and "\<not> empty (heap st ! df)"
  shows "\<exists>st' shown styled. render_table df outcomes st = (Inr (), st')
           \<and> ui st' = ui st @ [Dataframe shown styled]
           \<and> shown = formatted (heap st ! df)
           \<and> length styled = length (cols shown)
           \<and> (\<forall>j < length (cols shown).
                 length (styled ! j) = length (snd (cols shown ! j))
                 \<and> (\<forall>i < length (snd (cols shown ! j)).
                       (styled ! j ! i = highlight_css \<longleftrightarrow>
                          fst (cols shown ! j) \<in> (\<lambda>outcome. outcome @ ''_percentage'') ` set outcomes
                          \<and> is_column_max (snd (cols shown ! j)) i)
                       \<and> (styled ! j ! i = highlight_css \<or> styled ! j ! i = [])))"
proof -
  let ?hl = "map (\<lambda>outcome. outcome @ ''_percentage'') outcomes"
  let ?shown = "formatted (heap st ! df)"
  let ?styled = "map (column_style ?hl) (cols ?shown)"
  let ?st' = "st\<lparr>heap := heap st @ [?shown], ui := ui st @ [Dataframe ?shown ?styled]\<rparr>"
  have run: "render_table df outcomes st = (Inr (), ?st')"
    using assms by (rule render_table_run)
  have cells: "length (?styled ! j) = length (snd (cols ?shown ! j))
        \<and> (\<forall>i < length (snd (cols ?shown ! j)).
              (?styled ! j ! i = highlight_css \<longleftrightarrow>
                 fst (cols ?shown ! j) \<in> (\<lambda>outcome. outcome @ ''_percentage'') ` set outcomes
                 \<and> is_column_max (snd (cols ?shown ! j)) i)
              \<and> (?styled ! j ! i = highlight_css \<or> ?styled ! j ! i = []))"
    if "j < length (cols ?shown)" for j
  proof -
    have nth: "?styled ! j = column_style ?hl (cols ?shown ! j)"
      using that by simp
    have len: "length (?styled ! j) = length (snd (cols ?shown ! j))"
      unfolding nth by (rule length_column_style)
    have cell: "(?styled ! j ! i = highlight_css \<longleftrightarrow>
                 fst (cols ?shown ! j) \<in> (\<lambda>outcome. outcome @ ''_percentage'') ` set outcomes
                 \<and> is_column_max (snd (cols ?shown ! j)) i)
              \<and> (?styled ! j ! i = highlight_css \<or> ?styled ! j ! i = [])"
      if i: "i < length (snd (cols ?shown ! j))" for i
      using column_style_cell [OF i, of ?hl] unfolding nth set_map .
    from len cell show ?thesis
      by blast
  qed
  show ?thesis
  proof (intro exI conjI)
    show "render_table df outcomes st = (Inr (), ?st')" by (rule run)
    show "ui ?st' = ui st @ [Dataframe ?shown ?styled]" by simp
    show "?shown = formatted (heap st ! df)" by (rule refl)
    show "length ?styled = length (cols ?shown)" by simp
    show "\<forall>j < length (cols ?shown).
                 length (?styled ! j) = length (snd (cols ?shown ! j))
                 \<and> (\<forall>i < length (snd (cols ?shown ! j)).
                       (?styled ! j ! i = highlight_css \<longleftrightarrow>
                          fst (cols ?shown ! j) \<in> (\<lambda>outcome. outcome @ ''_percentage'') ` set outcomes
                          \<and> is_column_max (snd (cols ?shown ! j)) i)
                       \<and> (?styled ! j ! i = highlight_css \<or> ?styled ! j ! i = []))"
      using cells by blast
  qed
qed

lemma fl_of_int:
  assumes "\<bar>n\<bar> \<le> 2 ^ 53"
  shows "fl (of_int n) = of_int n"
  using fl_representable [OF assms, of 0] by simp

lemma round2_of_int:
  assumes "\<bar>n\<bar> \<le> 2 ^ 46"
  shows "round2 (fl (of_int n)) = of_int n"
proof -
  have n: "\<bar>n\<bar> \<le> 2 ^ 53"
    using assms by simp
  have "\<bar>n * 100\<bar> \<le> 2 ^ 53"
    using assms by (simp add: abs_mult)
  then have "fl (of_int (n * 100)) = of_int (n * 100)"
    by (rule fl_of_int)
  then have "fl (of_int n * 100) = of_int (n * 100)"
    by simp
  then have "round2 (of_int n) = fl (of_int (n * 100) / 100)"
    by (simp only: round2_def round_half_even_int)
  also have "\<dots> = fl (of_int n)"
    by simp
  finally show ?thesis
    by (simp only: fl_of_int [OF n])
qed

lemma formatted_table_hl: "formatted table_hl = table_hl"
proof -
  have "round2 (fl 70) = 70" "round2 (fl 20) = 20" "round2 (fl 50) = 50" "round2 (fl 10) = 10"
    using round2_of_int [of 70] round2_of_int [of 20] round2_of_int [of 50] round2_of_int [of 10]
    by simp_all
  then show ?thesis
    by (simp add: formatted_def table_hl_def)
qed

theorem render_table_highlights_witness:
  "0 < length (heap (init\<lparr>heap := [table_hl]\<rparr>))
   \<and> distinct (columns (heap (init\<lparr>heap := [table_hl]\<rparr>) ! 0))
   \<and> numeric_percentages (heap (init\<lparr>heap := [table_hl]\<rparr>) ! 0)
   \<and> \<not> empty (heap (init\<lparr>heap := [table_hl]\<rparr>) ! 0)
   \<and> (\<exists>st' styled.
         render_table 0 [''over_25''] (init\<lparr>heap := [table_hl]\<rparr>) = (Inr (), st')
         \<and> ui st' = [Dataframe table_hl styled]
         \<and> styled ! 1 ! 0 = highlight_css \<and> styled ! 1 ! 1 = highlight_css
         \<and> styled ! 1 ! 2 = []
         \<and> styled ! 0 ! 0 = [] \<and> styled ! 0 ! 1 = [] \<and> styled ! 0 ! 2 = [])"
proof -
  let ?st = "init\<lparr>heap := [table_hl]\<rparr>"
  have h: "0 < length (heap ?st)" "distinct (columns (heap ?st ! 0))"
    "numeric_percentages (heap ?st ! 0)" "\<not> empty (heap ?st ! 0)"
    by (simp_all add: table_hl_def columns_def numeric_percentages_def suffix_to_prefix empty_def)
  have at: "formatted (heap ?st ! 0) = table_hl"
    by (simp add: formatted_table_hl)
  from render_table_highlights [OF h, of "[''over_25'']"] obtain st' styled where
    1: "render_table 0 [''over_25''] ?st = (Inr (), st')"
    and 2: "ui st' = ui ?st @ [Dataframe table_hl styled]"
    and 3: "\<forall>j < length (cols table_hl).
              (\<forall>i < length (snd (cols table_hl ! j)).
                  (styled ! j ! i = highlight_css \<longleftrightarrow>
                     fst (cols table_hl ! j) \<in> (\<lambda>outcome. outcome @ ''_percentage'') ` set [''over_25'']
                     \<and> is_column_max (snd (cols table_hl ! j)) i)
                  \<and> (styled ! j ! i = highlight_css \<or> styled ! j ! i = []))"
    unfolding at by blast
  have c: "cols table_hl = [(''gg_percentage'', [Num 70, Num 20, Num 70]),
                            (''over_25_percentage'', [Num 50, Num 50, Num 10])]"
    by (simp add: table_hl_def)
  have m0: "is_column_max [Num 50, Num 50, Num 10] 0" and m1: "is_column_max [Num 50, Num 50, Num 10] 1"
    and m2: "\<not> is_column_max [Num 50, Num 50, Num 10] 2"
    by (auto simp: is_column_max_def)
  have j1: "(1::nat) < length (cols table_hl)" and j0: "(0::nat) < length (cols table_hl)"
    by (simp_all add: c)
  have n1: "cols table_hl ! 1 = (''over_25_percentage'', [Num 50, Num 50, Num 10])"
    and n0: "cols table_hl ! 0 = (''gg_percentage'', [Num 70, Num 20, Num 70])"
    by (simp_all add: c)
  have sel1: "''over_25_percentage'' \<in> (\<lambda>outcome. outcome @ ''_percentage'') ` set [''over_25'']"
    and sel0: "''gg_percentage'' \<notin> (\<lambda>outcome. outcome @ ''_percentage'') ` set [''over_25'']"
    by simp_all
  from 3 j1 have col1: "\<forall>i < length (snd (cols table_hl ! 1)).
                  (styled ! 1 ! i = highlight_css \<longleftrightarrow>
                     fst (cols table_hl ! 1) \<in> (\<lambda>outcome. outcome @ ''_percentage'') ` set [''over_25'']
                     \<and> is_column_max (snd (cols table_hl ! 1)) i)
                  \<and> (styled ! 1 ! i = highlight_css \<or> styled ! 1 ! i = [])"
    by blast
  from 3 j0 have col0: "\<forall>i < length (snd (cols table_hl ! 0)).
                  (styled ! 0 ! i = highlight_css \<longleftrightarrow>
                     fst (cols table_hl ! 0) \<in> (\<lambda>outcome. outcome @ ''_percentage'') ` set [''over_25'']
                     \<and> is_column_max (snd (cols table_hl ! 0)) i)
                  \<and> (styled ! 0 ! i = highlight_css \<or> styled ! 0 ! i = [])"
    by blast
  have cell1: "(styled ! 1 ! i = highlight_css \<longleftrightarrow> is_column_max [Num 50, Num 50, Num 10] i)
               \<and> (styled ! 1 ! i = highlight_css \<or> styled ! 1 ! i = [])" if "i < 3" for i
  proof -
    have l: "length [Num 50, Num 50, Num 10 :: cell] = 3" by simp
    from col1 [unfolded n1 fst_conv snd_conv l] sel1 that show ?thesis by blast
  qed
  have cell0: "styled ! 0 ! i = []" if "i < 3" for i
  proof -
    have l: "length [Num 70, Num 20, Num 70 :: cell] = 3" by simp
    from col0 [unfolded n0 fst_conv snd_conv l] sel0 that show ?thesis by blast
  qed
  have s10: "styled ! 1 ! 0 = highlight_css"
    using cell1 [of 0] m0 by auto
  have s11: "styled ! 1 ! 1 = highlight_css"
    using cell1 [of 1] m1 by auto
  have s12: "styled ! 1 ! 2 = []"
    using cell1 [of 2] m2 by auto
  have s0: "styled ! 0 ! 0 = []" "styled ! 0 ! 1 = []" "styled ! 0 ! 2 = []"
    using cell0 [of 0] cell0 [of 1] cell0 [of 2] by simp_all
  have u: "ui st' = [Dataframe table_hl styled]"
    using 2 by (simp add: init_def)
  show ?thesis
    using h 1 u s10 s11 s12 s0 by blast
qed

subsection \<open>Summary Aggregator\<close>














































subsection \<open>Total of matches\<close>

lemma series_sum_numeric: "\<not> list_ex is_str vs \<Longrightarrow> series_sum vs = Inr (sum_list (numbers vs))"
  by (simp add: series_sum_def)

lemma digit_not_separator:
  assumes "k < 10"
  shows "digit k \<noteq> CHR '',''" and "digit k \<noteq> CHR ''.''"
proof -
  have "digit k \<in> set ''0123456789''"
    unfolding digit_def using assms by (intro nth_mem) simp
  then show "digit k \<noteq> CHR '',''" and "digit k \<noteq> CHR ''.''"
    by auto
qed

lemma str_nat_digits: "\<forall>c \<in> set (str_nat n). c \<noteq> CHR '','' \<and> c \<noteq> CHR ''.''"
proof (induction n rule: str_nat.induct)
  case (1 n)
  show ?case
  proof (cases "n < 10")
    case True
    then show ?thesis
      using digit_not_separator [of n] by (subst str_nat.simps) simp
  next
    case False
    have "n mod 10 < 10" by simp
    then show ?thesis
      using False "1.IH" digit_not_separator [of "n mod 10"]
      by (subst str_nat.simps) auto
  qed
qed

lemma group3_filter:
  "\<forall>c \<in> set ds. c \<noteq> CHR '','' \<and> c \<noteq> CHR ''.'' \<Longrightarrow>
   filter (\<lambda>c. c \<noteq> CHR '','' \<and> c \<noteq> CHR ''.'') (group3 ds) = ds"
proof (induction ds rule: group3.induct)
  case (1 a b c d rest)
  then show ?case by simp
qed (simp_all add: filter_id_conv)

lemma filter_replace_comma:
  "filter (\<lambda>c. c \<noteq> CHR ''.'') (replace_comma s) = filter (\<lambda>c. c \<noteq> CHR '','' \<and> c \<noteq> CHR ''.'') s"
  by (induction s) (simp_all add: replace_comma_def)

lemma format_without_separators:
  "filter (\<lambda>c. c \<noteq> CHR ''.'') (replace_comma (format_comma n)) = str_int n"
proof -
  let ?p = "\<lambda>c. c \<noteq> CHR '','' \<and> c \<noteq> CHR ''.''"
  have "filter ?p (rev (group3 (rev (str_nat (nat \<bar>n\<bar>))))) = str_nat (nat \<bar>n\<bar>)"
    using group3_filter [of "rev (str_nat (nat \<bar>n\<bar>))"] str_nat_digits [of "nat \<bar>n\<bar>"]
    by (simp add: rev_filter [symmetric])
  then show ?thesis
    unfolding filter_replace_comma format_comma_def str_int_def by simp
qed

text \<open>
  C9. For a combined table (labels pairwise different, no text in the column of totals):
  when the column \<^verbatim>\<open>total_matches\<close> is in the table the metric shows the sum of its
  numbers, truncated to an integer and written in decimal digits grouped by dots; when the
  column is absent the metric shows that the figure is not available. Neither case is an
  error. Without the dots the text shown is the decimal numeral of the integer.
\<close>

theorem total_matches_metric_report:
  assumes "distinct (columns data)"
    and "numeric_column data ''total_matches''"
  shows "(''total_matches'' \<in> set (columns data) \<longrightarrow>
            (\<exists>vs. column_values data ''total_matches'' = Some vs
               \<and> total_matches_metric data
                   = Inr (Metric ''Partite analizzate''
                            (replace_comma (format_comma (trunc (sum_list (numbers vs))))))))
         \<and> (''total_matches'' \<notin> set (columns data) \<longrightarrow>
              total_matches_metric data = Inr (Metric ''Partite analizzate'' ''Dato non disponibile''))
         \<and> (\<forall>n. filter (\<lambda>c. c \<noteq> CHR ''.'') (replace_comma (format_comma n)) = str_int n)"
proof (intro conjI impI allI)
  assume mem: "''total_matches'' \<in> set (columns data)"
  then have "''total_matches'' \<in> fst ` set (cols data)"
    by (simp add: columns_def)
  then obtain vs where vs: "map_of (cols data) ''total_matches'' = Some vs"
    by (cases "map_of (cols data) ''total_matches''") (auto simp: map_of_eq_None_iff)
  then have cv: "column_values data ''total_matches'' = Some vs"
    by (simp add: column_values_def)
  with assms(2) have "\<not> list_ex is_str vs"
    by (simp add: numeric_column_def)
  then have "total_matches_metric data
        = Inr (Metric ''Partite analizzate''
                 (replace_comma (format_comma (trunc (sum_list (numbers vs))))))"
    using mem vs by (simp add: total_matches_metric_def getitem_def series_sum_numeric)
  with cv show "\<exists>vs. column_values data ''total_matches'' = Some vs
               \<and> total_matches_metric data
                   = Inr (Metric ''Partite analizzate''
                            (replace_comma (format_comma (trunc (sum_list (numbers vs))))))"
    by blast
next
  assume "''total_matches'' \<notin> set (columns data)"
  then show "total_matches_metric data = Inr (Metric ''Partite analizzate'' ''Dato non disponibile'')"
    by (simp add: total_matches_metric_def)
next
  fix n
  show "filter (\<lambda>c. c \<noteq> CHR ''.'') (replace_comma (format_comma n)) = str_int n"
    by (rule format_without_separators)
qed

lemma digits_1234567: "str_nat 1234567 = ''1234567''"
  by (simp add: str_nat.simps digit_def)

theorem total_matches_metric_report_witness:
  "distinct (columns table_sum) \<and> numeric_column table_sum ''total_matches''
   \<and> ''total_matches'' \<in> set (columns table_sum)
   \<and> total_matches_metric table_sum = Inr (Metric ''Partite analizzate'' ''1.234.567'')
   \<and> distinct (columns table_A) \<and> numeric_column table_A ''total_matches''
   \<and> total_matches_metric table_A = Inr (Metric ''Partite analizzate'' ''Dato non disponibile'')"
proof -
  have h: "distinct (columns table_sum)" "numeric_column table_sum ''total_matches''"
    by (simp_all add: table_sum_def columns_def numeric_column_def column_values_def)
  have hA: "distinct (columns table_A)" "numeric_column table_A ''total_matches''"
    by (simp_all add: table_A_def columns_def numeric_column_def column_values_def)
  have mem: "''total_matches'' \<in> set (columns table_sum)"
    and memA: "''total_matches'' \<notin> set (columns table_A)"
    by (simp_all add: table_sum_def table_A_def columns_def)
  have cv: "column_values table_sum ''total_matches'' = Some [Num 1234000, Num 567]"
    by (simp add: column_values_def table_sum_def)
  have fmt: "replace_comma (format_comma (trunc (sum_list (numbers [Num 1234000, Num 567]))))
             = ''1.234.567''"
    by (simp add: trunc_def format_comma_def replace_comma_def digits_1234567)
  from total_matches_metric_report [OF h] mem cv fmt
  have 1: "total_matches_metric table_sum = Inr (Metric ''Partite analizzate'' ''1.234.567'')"
    by auto
  from total_matches_metric_report [OF hA] memA
  have 2: "total_matches_metric table_A = Inr (Metric ''Partite analizzate'' ''Dato non disponibile'')"
    by blast
  show ?thesis
    using h hA mem 1 2 by blast
qed

end
